theory Spec2Isabelle
  imports Main "HOL-Library.Word"
begin

unbundle bit_operations_syntax

section \<open>Frame store (xcapture.go, lines 26-48)\<close>

text \<open>
  Go's \<open>byte\<close> is an 8-bit word, \<open>uint16\<close> a 16-bit word and \<open>uint32\<close> a 32-bit
  word. An \<open>int16\<close> field is a 16-bit word read with \<open>sint\<close>, a \<open>uint16\<close> field is
  read with \<open>uint\<close>: the conversions \<open>int(x)\<close> of the source. Go's \<open>int\<close> has 64
  bits and is an \<open>int\<close> here; the wrap-around is written out (\<open>go_int\<close>) where a value
  is not bounded by the length of a slice or by a 16-bit field. The sizes and offsets of
  a buffer that main makes are products of two 16-bit values and 8 at most.
\<close>

type_synonym byte = "8 word"

datatype error =
    IndexOutOfRange   \<comment> \<open>runtime panic: index out of range\<close>
  | SliceBounds       \<comment> \<open>runtime panic: slice bounds out of range\<close>
  | DivideByZero      \<comment> \<open>runtime panic: integer divide by zero\<close>
  | TickerPanic       \<comment> \<open>panic of time.NewTicker on a non-positive interval\<close>
  | Fatal             \<comment> \<open>log.Fatal: the process exits\<close>

definition bytesPerPixel :: int where
  "bytesPerPixel = 4"

record Buffer =
  Width :: int
  Height :: int
  Pages :: int
  Data :: "byte list"
  ShmID :: int

definition PageSize :: "Buffer \<Rightarrow> int" where
  "PageSize b = Width b * Height b * bytesPerPixel"

definition PageOffset :: "Buffer \<Rightarrow> int \<Rightarrow> int" where
  "PageOffset b idx = PageSize b * idx"

text \<open>
  A slice of the shared segment is its offset and its length; the bytes it denotes are
  read from the segment at the moment of the access, since the slice aliases the segment.
  \<open>Page\<close> is the three-index slice expression \<open>b.Data[offset : offset+size : offset+size]\<close>,
  which panics unless \<open>0 \<le> offset \<le> offset+size \<le> cap(b.Data)\<close>.
\<close>

type_synonym slice = "nat \<times> nat"

definition slice_bytes :: "byte list \<Rightarrow> slice \<Rightarrow> byte list" where
  "slice_bytes mem s = take (snd s) (drop (fst s) mem)"

text \<open>
  Storing bytes into the segment at an offset, as a store through a slice of it or by
  the X server does. Nothing is stored beyond the end of the segment.
\<close>

definition store_bytes :: "byte list \<Rightarrow> nat \<Rightarrow> byte list \<Rightarrow> byte list" where
  "store_bytes mem off bs = take off mem @ take (length mem - off) bs @ drop (off + length bs) mem"

definition Page :: "Buffer \<Rightarrow> int \<Rightarrow> error + slice" where
  "Page b idx =
     (let offset = PageOffset b idx; size = PageSize b
      in if 0 \<le> offset \<and> offset \<le> offset + size \<and> offset + size \<le> int (length (Data b))
         then Inr (nat offset, nat size)
         else Inl SliceBounds)"

section \<open>Cursor compositor (drawCursor, lines 300-329)\<close>

text \<open>
  The replies of the two X requests are parameters: \<open>None\<close> is a reply with a non-nil
  error. The fields are those of xfixes.GetCursorImageReply and
  xproto.TranslateCoordinatesReply that the function reads; the cursor's \<open>Width\<close> and
  \<open>Height\<close> carry a suffix, the names being taken by the Buffer.
\<close>

record GetCursorImageReply =
  X :: "16 word"
  Y :: "16 word"
  Width_cursor :: "16 word"
  Height_cursor :: "16 word"
  Xhot :: "16 word"
  Yhot :: "16 word"
  CursorImage :: "32 word list"

record TranslateCoordinatesReply =
  DstX :: "16 word"
  DstY :: "16 word"

text \<open>Lines 314 and 315: the destination of cursor sample \<open>i\<close>.\<close>

definition dest_row :: "GetCursorImageReply \<Rightarrow> TranslateCoordinatesReply \<Rightarrow> int \<Rightarrow> int" where
  "dest_row cursor pos i = i div uint (Width_cursor cursor) + sint (DstY pos) - uint (Yhot cursor)"

definition dest_col :: "GetCursorImageReply \<Rightarrow> TranslateCoordinatesReply \<Rightarrow> int \<Rightarrow> int" where
  "dest_col cursor pos i = i mod uint (Width_cursor cursor) + sint (DstX pos) - uint (Xhot cursor)"

text \<open>Line 316: the test that ends the scan.\<close>

definition off_screen :: "Buffer \<Rightarrow> int \<Rightarrow> int \<Rightarrow> bool" where
  "off_screen buf row col \<longleftrightarrow> row \<ge> Height buf \<or> col \<ge> Width buf \<or> row < 0 \<or> col < 0"

text \<open>Line 320.\<close>

definition pixel_off :: "Buffer \<Rightarrow> int \<Rightarrow> int \<Rightarrow> int" where
  "pixel_off buf row col = row * Width buf * bytesPerPixel + col * bytesPerPixel"

text \<open>
  Lines 325-327, one channel: \<open>byte((alpha*uint32(src) + invAlpha*uint32(dst)) >> 8)\<close>,
  in 32-bit arithmetic.
\<close>

definition blend_channel :: "32 word \<Rightarrow> 32 word \<Rightarrow> byte \<Rightarrow> byte \<Rightarrow> byte" where
  "blend_channel alpha invAlpha src dst =
     ucast (drop_bit 8 (alpha * ucast src + invAlpha * ucast dst))"

text \<open>
  Lines 321-327. The first store is the one at the highest index \<open>off+3\<close>: when it is
  in range so are the other three (\<open>off\<close> is not negative where the function is called,
  row and column having passed line 316; a negative one panics at the last store at the
  latest).
\<close>

definition blend_pixel :: "byte list \<Rightarrow> int \<Rightarrow> 32 word \<Rightarrow> error + byte list" where
  "blend_pixel page off p =
     (if off < 0 \<or> int (length page) \<le> off + 3 then Inl IndexOutOfRange
      else
        let alpha = drop_bit 24 p + 1;
            invAlpha = 256 - drop_bit 24 p;
            n = nat off;
            page3 = page[n + 3 := 255];
            page2 = page3[n + 2 := blend_channel alpha invAlpha (ucast (drop_bit 16 p)) (page3 ! (n + 2))];
            page1 = page2[n + 1 := blend_channel alpha invAlpha (ucast (drop_bit 8 p)) (page2 ! (n + 1))];
            page0 = page1[n := blend_channel alpha invAlpha (ucast p) (page1 ! n)]
        in Inr page0)"

text \<open>
  Lines 313-328: the loop over \<open>cursor.CursorImage\<close>, \<open>i\<close> being the index of the head
  of the remaining samples. \<open>i/int(cursor.Width)\<close> panics when the width is 0.
\<close>

fun drawCursor_loop ::
  "Buffer \<Rightarrow> GetCursorImageReply \<Rightarrow> TranslateCoordinatesReply \<Rightarrow> int \<Rightarrow> 32 word list \<Rightarrow>
   byte list \<Rightarrow> error + byte list" where
  "drawCursor_loop buf cursor pos i [] page = Inr page"
| "drawCursor_loop buf cursor pos i (p # ps) page =
     (if uint (Width_cursor cursor) = 0 then Inl DivideByZero
      else
        let row = dest_row cursor pos i;
            col = dest_col cursor pos i
        in if off_screen buf row col then Inr page
           else (case blend_pixel page (pixel_off buf row col) p of
                   Inl e \<Rightarrow> Inl e
                 | Inr page' \<Rightarrow> drawCursor_loop buf cursor pos (i + 1) ps page'))"

definition drawCursor ::
  "GetCursorImageReply option \<Rightarrow> TranslateCoordinatesReply option \<Rightarrow> Buffer \<Rightarrow> byte list \<Rightarrow>
   error + byte list" where
  "drawCursor cursor_reply pos_reply buf page =
     (case cursor_reply of
        None \<Rightarrow> Inr page
      | Some cursor \<Rightarrow>
          (case pos_reply of
             None \<Rightarrow> Inr page
           | Some pos \<Rightarrow>
               if sint (DstY pos) < 0 \<or> sint (DstX pos) < 0 \<or>
                  sint (DstY pos) > Height buf \<or> sint (DstX pos) > Width buf
               then Inr page
               else drawCursor_loop buf cursor pos 0 (CursorImage cursor) page))"

section \<open>Capture loop (main, lines 244-297)\<close>

text \<open>
  The built-in \<open>copy(dst, src)\<close> copies \<open>min(len(dst), len(src))\<close> elements to the front
  of \<open>dst\<close>. \<open>copy_at dst lo src\<close> is \<open>copy(dst[lo:], src)\<close> for \<open>lo \<le> len(dst)\<close>.
\<close>

definition go_copy :: "byte list \<Rightarrow> byte list \<Rightarrow> byte list" where
  "go_copy dst src = take (min (length dst) (length src)) src @ drop (min (length dst) (length src)) dst"

definition copy_at :: "byte list \<Rightarrow> nat \<Rightarrow> byte list \<Rightarrow> byte list" where
  "copy_at dst lo src = take lo dst @ go_copy (drop lo dst) src"

text \<open>Go's \<open>%\<close> truncates towards zero: the remainder has the sign of the dividend.\<close>

definition go_rem :: "int \<Rightarrow> int \<Rightarrow> int" where
  "go_rem a b = sgn a * (\<bar>a\<bar> mod \<bar>b\<bar>)"

text \<open>
  Lines 263-270: the width and the height of the request, each \<open>v\<close> of the window
  against the \<open>limit\<close> of the buffer; \<open>uint16(buf.Width)\<close> keeps the low 16 bits.
\<close>

definition clamp_dim :: "int \<Rightarrow> 16 word \<Rightarrow> 16 word" where
  "clamp_dim limit v = (if uint v > limit then word_of_int limit else v)"

text \<open>
  Lines 287-289: the loop \<open>for i := 0; i < int(h); i++\<close> that spreads the rows. A slice
  expression \<open>s[a:b]\<close> panics unless \<open>0 \<le> a \<le> b \<le> cap(s)\<close>; the capacity of the page and
  of the scratch buffer is their length.
\<close>

function reconcile_rows ::
  "Buffer \<Rightarrow> int \<Rightarrow> int \<Rightarrow> byte list \<Rightarrow> int \<Rightarrow> byte list \<Rightarrow> error + byte list" where
  "reconcile_rows buf w h scratch i page =
     (if i < h then
        let lo = i * Width buf * bytesPerPixel;
            a = i * w * bytesPerPixel;
            b = (i + 1) * w * bytesPerPixel
        in if lo < 0 \<or> int (length page) < lo then Inl SliceBounds
           else if a < 0 \<or> b < a \<or> int (length scratch) < b then Inl SliceBounds
           else reconcile_rows buf w h scratch (i + 1)
                  (copy_at page (nat lo) (take (nat b - nat a) (drop (nat a) scratch)))
      else Inr page)"
  by pat_completeness auto
termination
  by (relation "measure (\<lambda>(buf, w, h, scratch, i, page). nat (h - i))") auto

declare reconcile_rows.simps [simp del]

text \<open>
  Lines 282-290, on the contents of the page and of the scratch buffer; the result is
  the new contents of both.
\<close>

definition reconcile ::
  "Buffer \<Rightarrow> 16 word \<Rightarrow> 16 word \<Rightarrow> byte list \<Rightarrow> byte list \<Rightarrow> error + (byte list \<times> byte list)" where
  "reconcile buf w h scratch page =
     (if uint w < Width buf \<or> uint h < Height buf then
        let scratch' = go_copy scratch page;
            zeroed = replicate (length page) 0
        in (case reconcile_rows buf (uint w) (uint h) scratch' 0 zeroed of
              Inl e \<Rightarrow> Inl e
            | Inr page' \<Rightarrow> Inr (page', scratch'))
      else Inr (page, scratch))"

text \<open>
  The state of the loop: the buffer (its \<open>Data\<close> is the present contents of the shared
  segment), the variables \<open>width\<close>, \<open>height\<close>, \<open>i\<close> and \<open>pix\<close> of main, and the scratch
  buffer of line 244.
\<close>

record capture_state =
  cap_buf :: Buffer
  cap_width :: "16 word"
  cap_height :: "16 word"
  cap_i :: int
  cap_pix :: "32 word"
  cap_scratch :: "byte list"

text \<open>
  What one iteration is given from outside. With a configure event pending the
  \<open>select\<close> of line 246 takes it: the event's width and height, and the reply of
  NewPixmapId (\<open>None\<close> is an error). Otherwise the default branch runs, with the reply
  of the image fetch and the two replies that \<open>drawCursor\<close> asks for. \<open>stored\<close> is what
  the X server has written into the segment at the requested offset when the reply of
  the fetch arrives.
\<close>

record GetImage_reply =
  reply_err :: bool
  stored :: "byte list"

datatype capture_input =
    ConfigureNotify "16 word" "16 word" "32 word option"
  | Capture GetImage_reply "GetCursorImageReply option" "TranslateCoordinatesReply option"

text \<open>What one iteration does to the outside, in order.\<close>

datatype effect =
    FreePixmap "32 word"
  | NameWindowPixmap "32 word"
  | GetImage "32 word" "16 word" "16 word" "32 word"   \<comment> \<open>pixmap, width, height, offset\<close>
  | Println                                           \<comment> \<open>line 273\<close>
  | Send slice                                        \<comment> \<open>line 294: \<open>ch <- page\<close>\<close>

definition capture_iter :: "capture_state \<Rightarrow> capture_input \<Rightarrow> error + (capture_state \<times> effect list)" where
  "capture_iter st inp =
     (case inp of
        ConfigureNotify ev_width ev_height pix_reply \<Rightarrow>
          let st1 = (if ev_width \<noteq> cap_width st \<or> ev_height \<noteq> cap_height st
                     then st\<lparr>cap_width := ev_width, cap_height := ev_height\<rparr> else st)
          in (case pix_reply of
                None \<Rightarrow> Inl Fatal
              | Some pix \<Rightarrow>
                  Inr (st1\<lparr>cap_pix := pix\<rparr>, [FreePixmap (cap_pix st), NameWindowPixmap pix]))
      | Capture reply cursor_reply pos_reply \<Rightarrow>
          let buf = cap_buf st;
              offset = PageOffset buf (cap_i st);
              w = clamp_dim (Width buf) (cap_width st);
              h = clamp_dim (Height buf) (cap_height st);
              request = GetImage (cap_pix st) w h (word_of_int offset);
              mem = store_bytes (Data buf) (unat (word_of_int offset :: 32 word)) (stored reply)
          in if reply_err reply
             then Inr (st\<lparr>cap_buf := buf\<lparr>Data := mem\<rparr>\<rparr>, [request, Println])
             else
               (case Page buf (cap_i st) of
                  Inl e \<Rightarrow> Inl e
                | Inr pg \<Rightarrow>
                    (case reconcile buf w h (cap_scratch st) (slice_bytes mem pg) of
                       Inl e \<Rightarrow> Inl e
                     | Inr (page1, scratch1) \<Rightarrow>
                         (case drawCursor cursor_reply pos_reply buf page1 of
                            Inl e \<Rightarrow> Inl e
                          | Inr page2 \<Rightarrow>
                              Inr (st\<lparr>cap_buf := buf\<lparr>Data := store_bytes mem (fst pg) page2\<rparr>,
                                      cap_scratch := scratch1,
                                      cap_i := go_rem (cap_i st + 1) 2\<rparr>,
                                   [request, Send pg])))))"

text \<open>
  The loop of line 245 on the inputs of its successive iterations. It ends only by a
  panic or by log.Fatal; the effects of the iterations are collected in order.
\<close>

fun capture_run :: "capture_state \<Rightarrow> capture_input list \<Rightarrow> error + (capture_state \<times> effect list)" where
  "capture_run st [] = Inr (st, [])"
| "capture_run st (inp # inps) =
     (case capture_iter st inp of
        Inl e \<Rightarrow> Inl e
      | Inr (st1, effs1) \<Rightarrow>
          (case capture_run st1 inps of
             Inl e \<Rightarrow> Inl e
           | Inr (st2, effs2) \<Rightarrow> Inr (st2, effs1 @ effs2)))"

text \<open>
  \<open>NewBuffer\<close> (lines 64-87). The package shm is a parameter: \<open>None\<close> when creating or
  attaching the segment fails, else the segment's ID. The slice header gives \<open>Data\<close>
  exactly \<open>width * height * pages * bytesPerPixel\<close> bytes; a new segment is zero-filled.
\<close>

definition NewBuffer :: "int \<Rightarrow> int \<Rightarrow> int \<Rightarrow> int option \<Rightarrow> error + Buffer" where
  "NewBuffer width height pages shm =
     (let size = width * height * pages * bytesPerPixel
      in case shm of
           None \<Rightarrow> Inl Fatal
         | Some shmid \<Rightarrow>
             Inr \<lparr>Width = width, Height = height, Pages = pages,
                  Data = replicate (nat size) 0, ShmID = shmid\<rparr>)"

text \<open>
  Lines 126-141 and 244: the state in which the loop starts, from the geometry of the
  window (\<open>geom.Width\<close>, \<open>geom.Height\<close>), the segment and the pixmap ID. An error of
  \<open>NewBuffer\<close> ends the process (line 135).
\<close>

definition capture_start :: "16 word \<Rightarrow> 16 word \<Rightarrow> int option \<Rightarrow> 32 word \<Rightarrow> error + capture_state" where
  "capture_start width height shm pix =
     (case NewBuffer (uint width) (uint height) 2 shm of
        Inl e \<Rightarrow> Inl e
      | Inr buf \<Rightarrow>
          Inr \<lparr>cap_buf = buf, cap_width = width, cap_height = height, cap_i = 0, cap_pix = pix,
               cap_scratch = replicate (nat (PageSize buf)) 0\<rparr>)"

text \<open>
  What holds of the state whenever an iteration starts: the buffer is as line 133 made
  it, but for the contents of the segment.
\<close>

definition capture_inv :: "capture_state \<Rightarrow> bool" where
  "capture_inv st \<longleftrightarrow>
     0 \<le> Width (cap_buf st) \<and> Width (cap_buf st) < 65536 \<and>
     0 \<le> Height (cap_buf st) \<and> Height (cap_buf st) < 65536 \<and>
     int (length (Data (cap_buf st))) = 2 * PageSize (cap_buf st) \<and>
     int (length (cap_scratch st)) = PageSize (cap_buf st) \<and>
     (cap_i st = 0 \<or> cap_i st = 1)"

section \<open>Pacer (main, lines 199-242)\<close>

text \<open>
  Go's \<open>int\<close> and \<open>time.Duration\<close> have 64 bits: \<open>go_int\<close> is the value that an
  arithmetic result wraps to. The counters \<open>idx\<close> and \<open>dropped\<close> and the product of line
  215 are not bounded by anything in the program, so their wrap-around is written out.
\<close>

definition go_int :: "int \<Rightarrow> int" where
  "go_int x = (x + 2 ^ 63) mod 2 ^ 64 - 2 ^ 63"

text \<open>
  \<open>time.Second / time.Duration(*fps)\<close> (lines 176, 215 and 225), in nanoseconds. The
  flag is a \<open>uint\<close>, the conversion to \<open>time.Duration\<close> reads its 64 bits as a signed
  value, the division truncates towards zero and panics on a zero divisor.
\<close>

definition frame_interval :: "64 word \<Rightarrow> error + int" where
  "frame_interval fps =
     (if sint fps = 0 then Inl DivideByZero
      else Inr (sgn (sint fps) * (1000000000 div \<bar>sint fps\<bar>)))"

text \<open>
  What the Sink is given by one \<open>e.Emit\<close> (lines 213-217): a cluster with its timecode,
  its position and one block. \<open>ebml.Uint\<close> is an unsigned 64-bit value.
\<close>

record cluster =
  Timecode :: "64 word"
  Position :: "64 word"
  SimpleBlock :: "byte list"

text \<open>
  The variables of the Pacer: \<open>idx\<close> and \<open>prevFrame\<close> of lines 199-200 (a nil slice is
  \<open>None\<close>), \<open>dropped\<close> of line 228, and the clusters emitted so far, oldest first.
\<close>

record pacer_state =
  idx :: int
  prevFrame :: "slice option"
  dropped :: int
  emitted :: "cluster list"

definition pacer_init :: pacer_state where
  "pacer_init = \<lparr>idx = - 1, prevFrame = None, dropped = 0, emitted = []\<rparr>"

text \<open>
  What one tick is given from outside: the contents of the shared segment while the
  frame is copied (\<open>append(block, b...)\<close> reads through the slice), the page received
  from the channel if the Capture Loop is waiting to send one (\<open>None\<close>: the default branch
  of the \<open>select\<close>), and whether the encoder reports an error after the emission. A page
  sent by the Capture Loop is a slice of the segment and never nil.
\<close>

record tick =
  tick_mem :: "byte list"
  tick_avail :: "slice option"
  tick_sink_err :: bool

text \<open>Lines 201-222, \<open>b\<close> being \<open>None\<close> for the call \<open>sendFrame(nil)\<close>.\<close>

definition sendFrame :: "64 word \<Rightarrow> byte list \<Rightarrow> bool \<Rightarrow> slice option \<Rightarrow> pacer_state \<Rightarrow> error + pacer_state" where
  "sendFrame fps mem sink_err b st =
     (let idx' = go_int (idx st + 1);
          b' = (case b of None \<Rightarrow> prevFrame st | Some s \<Rightarrow> Some s);
          block = [129, 0, 0, 128] @ (case b' of None \<Rightarrow> [] | Some s \<Rightarrow> slice_bytes mem s)
      in case frame_interval fps of
           Inl e \<Rightarrow> Inl e
         | Inr d \<Rightarrow>
             let c = \<lparr>Timecode = word_of_int (go_int (idx' * d)), Position = 0, SimpleBlock = block\<rparr>;
                 st' = st\<lparr>idx := idx', prevFrame := b', emitted := emitted st @ [c]\<rparr>
             in if sink_err then Inl Fatal else Inr st')"

text \<open>Lines 234-240: the body of the loop over the ticks.\<close>

definition pacer_tick :: "64 word \<Rightarrow> tick \<Rightarrow> pacer_state \<Rightarrow> error + pacer_state" where
  "pacer_tick fps t st =
     (case tick_avail t of
        Some b \<Rightarrow> sendFrame fps (tick_mem t) (tick_sink_err t) (Some b) st
      | None \<Rightarrow>
          sendFrame fps (tick_mem t) (tick_sink_err t) None (st\<lparr>dropped := go_int (dropped st + 1)\<rparr>))"

fun pacer_ticks :: "64 word \<Rightarrow> tick list \<Rightarrow> pacer_state \<Rightarrow> error + pacer_state" where
  "pacer_ticks fps [] st = Inr st"
| "pacer_ticks fps (t # ts) st =
     (case pacer_tick fps t st of
        Inl e \<Rightarrow> Inl e
      | Inr st' \<Rightarrow> pacer_ticks fps ts st')"

text \<open>
  Lines 224-242: the goroutine, on the ticks that it receives. \<open>time.NewTicker\<close> panics
  on an interval that is not positive.
\<close>

definition pacer_run :: "64 word \<Rightarrow> tick list \<Rightarrow> error + pacer_state" where
  "pacer_run fps ts =
     (case frame_interval fps of
        Inl e \<Rightarrow> Inl e
      | Inr d \<Rightarrow> if d \<le> 0 then Inl TickerPanic else pacer_ticks fps ts pacer_init)"

section \<open>The two goroutines and the channel (lines 142, 224-242, 245-297)\<close>











text \<open>
  Shorthand for the properties below: whether cursor sample \<open>i\<close> is clipped by the test
  of line 316, the byte offset of its destination pixel, and the four stores of lines
  324-327 seen from the page before and the page after.
\<close>

abbreviation clipped :: "Buffer \<Rightarrow> GetCursorImageReply \<Rightarrow> TranslateCoordinatesReply \<Rightarrow> int \<Rightarrow> bool" where
  "clipped buf cursor pos i \<equiv> off_screen buf (dest_row cursor pos i) (dest_col cursor pos i)"

abbreviation cursor_off :: "Buffer \<Rightarrow> GetCursorImageReply \<Rightarrow> TranslateCoordinatesReply \<Rightarrow> int \<Rightarrow> int" where
  "cursor_off buf cursor pos i \<equiv> pixel_off buf (dest_row cursor pos i) (dest_col cursor pos i)"

definition blended_at :: "byte list \<Rightarrow> byte list \<Rightarrow> nat \<Rightarrow> 32 word \<Rightarrow> bool" where
  "blended_at res page n p \<longleftrightarrow>
     res ! (n + 3) = 255 \<and>
     res ! (n + 2) = blend_channel (drop_bit 24 p + 1) (256 - drop_bit 24 p) (ucast (drop_bit 16 p)) (page ! (n + 2)) \<and>
     res ! (n + 1) = blend_channel (drop_bit 24 p + 1) (256 - drop_bit 24 p) (ucast (drop_bit 8 p)) (page ! (n + 1)) \<and>
     res ! n = blend_channel (drop_bit 24 p + 1) (256 - drop_bit 24 p) (ucast p) (page ! n)"

abbreviation no_frame :: "tick list \<Rightarrow> nat" where
  "no_frame ts \<equiv> length (filter (\<lambda>t. tick_avail t = None) ts)"

section \<open>Properties of the cursor compositor\<close>

subsection \<open>One channel, in natural numbers\<close>

lemma unat_drop_bit_div: "unat (drop_bit n (w::'a::len word)) = unat w div 2 ^ n"
  by (subst unat_drop_bit_eq) (rule drop_bit_eq_div)

lemma alpha_lt: "unat (drop_bit 24 (p::32 word)) < 256"
proof -
  have "unat p < 2^32" using unsigned_less[of p] by simp
  then have "unat p div 2^24 < 256" by simp
  then show ?thesis by (subst unat_drop_bit_div)
qed

lemma blend_channel_nat:
  fixes p :: "32 word"
  defines "a \<equiv> unat (drop_bit 24 p)"
  shows "unat (blend_channel (drop_bit 24 p + 1) (256 - drop_bit 24 p) src dst)
         = ((a + 1) * unat src + (256 - a) * unat dst) div 256"
proof -
  have a: "a < 256" unfolding a_def by (rule alpha_lt)
  have s: "unat src < 256" using unsigned_less[of src] by simp
  have d: "unat dst < 256" using unsigned_less[of dst] by simp
  have al: "unat (drop_bit 24 p + 1) = a + 1"
    using a unfolding a_def by (simp add: unat_word_ariths)
  have ia: "unat (256 - drop_bit 24 p) = 256 - a"
    using a unfolding a_def by (simp add: unat_sub_if')
  have us: "unat (ucast src :: 32 word) = unat src"
    unfolding unsigned_ucast_eq by (rule take_bit_nat_eq_self) (use s in simp)
  have ud: "unat (ucast dst :: 32 word) = unat dst"
    unfolding unsigned_ucast_eq by (rule take_bit_nat_eq_self) (use d in simp)
  have m1: "(a + 1) * unat src \<le> (a + 1) * 255" by (rule mult_le_mono2) (use s in simp)
  have m2: "(256 - a) * unat dst \<le> (256 - a) * 255" by (rule mult_le_mono2) (use d in simp)
  have "(a + 1) * 255 + (256 - a) * 255 = 65535" using a by arith
  with add_mono [OF m1 m2] have sum: "(a + 1) * unat src + (256 - a) * unat dst \<le> 65535"
    by simp
  have p1: "unat ((drop_bit 24 p + 1) * ucast src) = (a + 1) * unat src"
    using sum by (simp add: unat_word_ariths(2) al us)
  have p2: "unat ((256 - drop_bit 24 p) * ucast dst) = (256 - a) * unat dst"
    using sum  by (simp add: unat_word_ariths(2) ia ud)
  have t: "unat ((drop_bit 24 p + 1) * ucast src + (256 - drop_bit 24 p) * ucast dst)
            = (a + 1) * unat src + (256 - a) * unat dst"
    using sum by (simp add: unat_word_ariths(1) p1 p2)
  have dr: "unat (drop_bit 8 ((drop_bit 24 p + 1) * ucast src + (256 - drop_bit 24 p) * ucast dst))
            = ((a + 1) * unat src + (256 - a) * unat dst) div 256"
    by (subst unat_drop_bit_div) (simp add: t)
  have "((a + 1) * unat src + (256 - a) * unat dst) div 256 < 2 ^ LENGTH(8)" using sum by simp
  then show ?thesis
    unfolding blend_channel_def unsigned_ucast_eq dr by (rule take_bit_nat_eq_self)
qed

subsection \<open>One pixel, and the pixels of one scan\<close>

lemma blend_pixel_Inr:
  assumes "blend_pixel page off p = Inr page'"
  shows "0 \<le> off" and "off + 3 < int (length page)" and "length page' = length page"
    and "\<And>n. n < nat off \<or> nat off + 3 < n \<Longrightarrow> page' ! n = page ! n"
    and "page' ! (nat off + 3) = 255"
    and "page' ! (nat off + 2) =
           blend_channel (drop_bit 24 p + 1) (256 - drop_bit 24 p) (ucast (drop_bit 16 p)) (page ! (nat off + 2))"
    and "page' ! (nat off + 1) =
           blend_channel (drop_bit 24 p + 1) (256 - drop_bit 24 p) (ucast (drop_bit 8 p)) (page ! (nat off + 1))"
    and "page' ! (nat off) =
           blend_channel (drop_bit 24 p + 1) (256 - drop_bit 24 p) (ucast p) (page ! (nat off))"
  using assms by (auto simp: blend_pixel_def Let_def nth_list_update split: if_splits)

lemma pixel_off_apart:
  assumes W: "0 \<le> c" "c < W" "0 \<le> c'" "c' < W" and r: "0 \<le> r" "0 \<le> r'"
    and ne: "r \<noteq> r' \<or> c \<noteq> c'"
  shows "(r * W * 4 + c * 4) + 3 < r' * W * 4 + c' * (4::int) \<or> (r' * W * 4 + c' * 4) + 3 < r * W * 4 + c * 4"
proof -
  have key: "a * W + b + 1 \<le> a' * W + b'" if "a < a' \<or> (a = a' \<and> b < b')" "0 \<le> b" "b < W" "0 \<le> b'" "b' < W"
    for a a' b b' :: int
  proof (cases "a < a'")
    case True
    then have "(a + 1) * W \<le> a' * W" using that by (intro mult_right_mono) auto
    then show ?thesis using that by (simp add: algebra_simps)
  next
    case False
    then show ?thesis using that by auto
  qed
  consider "r < r' \<or> (r = r' \<and> c < c')" | "r' < r \<or> (r' = r \<and> c' < c)" using ne by linarith
  then show ?thesis
  proof cases
    case 1
    from key [OF 1 W(1,2,3,4)] show ?thesis by simp
  next
    case 2
    from key [OF 2 W(3,4,1,2)] show ?thesis by simp
  qed
qed

lemma cursor_off_apart:
  assumes i: "0 \<le> i" "0 \<le> i'" "i \<noteq> i'"
    and on: "\<not> clipped buf cursor pos i" "\<not> clipped buf cursor pos i'"
  shows "cursor_off buf cursor pos i + 3 < cursor_off buf cursor pos i' \<or>
         cursor_off buf cursor pos i' + 3 < cursor_off buf cursor pos i"
proof -
  let ?w = "uint (Width_cursor cursor)"
  have "i div ?w \<noteq> i' div ?w \<or> i mod ?w \<noteq> i' mod ?w"
    using i(3) by (metis div_mult_mod_eq)
  then have "dest_row cursor pos i \<noteq> dest_row cursor pos i' \<or> dest_col cursor pos i \<noteq> dest_col cursor pos i'"
    by (auto simp: dest_row_def dest_col_def)
  then show ?thesis
    using on pixel_off_apart [of "dest_col cursor pos i" "Width buf" "dest_col cursor pos i'"
        "dest_row cursor pos i" "dest_row cursor pos i'"]
    by (auto simp: off_screen_def pixel_off_def bytesPerPixel_def not_le not_less)
qed

lemma blended_at_cong:
  assumes "blended_at res' page' n p"
    and "\<forall>c<4. res ! (n + c) = res' ! (n + c)"
    and "\<forall>c<4. page ! (n + c) = page' ! (n + c)"
  shows "blended_at res page n p"
proof -
  have r: "res ! (n + 3) = res' ! (n + 3)" "res ! (n + 2) = res' ! (n + 2)"
    "res ! (n + 1) = res' ! (n + 1)" "res ! n = res' ! n"
    using assms(2) [rule_format, of 3] assms(2) [rule_format, of 2]
      assms(2) [rule_format, of 1] assms(2) [rule_format, of 0] by simp_all
  have q: "page ! (n + 2) = page' ! (n + 2)"
    "page ! (n + 1) = page' ! (n + 1)" "page ! n = page' ! n"
    using assms(3) [rule_format, of 2]
      assms(3) [rule_format, of 1] assms(3) [rule_format, of 0] by simp_all
  show ?thesis using assms(1) unfolding blended_at_def r q .
qed

lemma apart_nat:
  fixes a b :: int and c :: nat
  assumes "0 \<le> a" "0 \<le> b" "a + 3 < b \<or> b + 3 < a" "c < 4"
  shows "nat a + c < nat b \<or> nat b + 3 < nat a + c"
  using assms by linarith

lemma drawCursor_loop_char:
  assumes "drawCursor_loop buf cursor pos i ps page = Inr res"
    and "0 \<le> i"
    and "k \<le> length ps"
    and "\<forall>j<k. \<not> clipped buf cursor pos (i + int j)"
    and "k < length ps \<longrightarrow> clipped buf cursor pos (i + int k)"
  shows "length res = length page \<and>
         (\<forall>n. (\<forall>j<k. n < nat (cursor_off buf cursor pos (i + int j)) \<or>
                        nat (cursor_off buf cursor pos (i + int j)) + 3 < n) \<longrightarrow> res ! n = page ! n) \<and>
         (\<forall>j<k. 0 \<le> cursor_off buf cursor pos (i + int j) \<and>
                 cursor_off buf cursor pos (i + int j) + 3 < int (length page) \<and>
                 blended_at res page (nat (cursor_off buf cursor pos (i + int j))) (ps ! j))"
  using assms
proof (induction ps arbitrary: i page k)
  case Nil
  then show ?case by simp
next
  case (Cons p ps)
  let ?off = "\<lambda>j. cursor_off buf cursor pos j"
  show ?case
  proof (cases "clipped buf cursor pos i")
    case True
    then have "k = 0" using Cons.prems(4) by (cases k) auto
    moreover have "res = page" using Cons.prems(1) True by (simp add: Let_def split: if_splits)
    ultimately show ?thesis by simp
  next
    case False
    then obtain k' where k: "k = Suc k'" using Cons.prems(3,5) by (cases k) auto
    from Cons.prems(1) False obtain page' where
      bp: "blend_pixel page (?off i) p = Inr page'" and
      rec: "drawCursor_loop buf cursor pos (i + 1) ps page' = Inr res"
      by (auto simp: Let_def split: if_splits sum.splits)
    note B = blend_pixel_Inr [OF bp]
    have p4: "\<forall>j<k'. \<not> clipped buf cursor pos (i + 1 + int j)"
      using Cons.prems(4) k by (auto simp: add.assoc dest: spec [where x = "Suc _"])
    have p5: "k' < length ps \<longrightarrow> clipped buf cursor pos (i + 1 + int k')"
      using Cons.prems(5) k by (simp add: add.assoc)
    have IH: "length res = length page' \<and>
         (\<forall>n. (\<forall>j<k'. n < nat (?off (i + 1 + int j)) \<or> nat (?off (i + 1 + int j)) + 3 < n)
               \<longrightarrow> res ! n = page' ! n) \<and>
         (\<forall>j<k'. 0 \<le> ?off (i + 1 + int j) \<and> ?off (i + 1 + int j) + 3 < int (length page') \<and>
                 blended_at res page' (nat (?off (i + 1 + int j))) (ps ! j))"
      using Cons.IH [OF rec _ _ p4 p5] Cons.prems(2,3) k by simp
    have apart: "?off i + 3 < ?off (i + 1 + int j) \<or> ?off (i + 1 + int j) + 3 < ?off i" if "j < k'" for j
      using cursor_off_apart [where i = i and i' = "i + 1 + int j" and buf = buf and cursor = cursor and pos = pos] Cons.prems(2) False p4 that
      by simp
    have later_ge: "0 \<le> ?off (i + 1 + int j)" if "j < k'" for j using IH that by blast
    have len: "length res = length page" using IH B(3) by simp
    have unch: "res ! n = page ! n"
      if "\<forall>j<k. n < nat (?off (i + int j)) \<or> nat (?off (i + int j)) + 3 < n" for n
    proof -
      have "n < nat (?off i) \<or> nat (?off i) + 3 < n" using that [rule_format, of 0] k by simp
      then have "page' ! n = page ! n" by (rule B(4))
      moreover have "\<forall>j<k'. n < nat (?off (i + 1 + int j)) \<or> nat (?off (i + 1 + int j)) + 3 < n"
        using that k by (auto simp: add.assoc dest: spec [where x = "Suc _"])
      then have "res ! n = page' ! n" using IH by blast
      ultimately show ?thesis by simp
    qed
    have first: "blended_at res page (nat (?off i)) p"
    proof -
      have "res ! (nat (?off i) + c) = page' ! (nat (?off i) + c)" if "c < 4" for c
      proof -
        have "\<forall>j<k'. nat (?off i) + c < nat (?off (i + 1 + int j)) \<or>
                      nat (?off (i + 1 + int j)) + 3 < nat (?off i) + c"
          using apart_nat [OF B(1) later_ge apart that] by blast
        then show ?thesis using IH by blast
      qed
      then have "\<forall>c<4. res ! (nat (?off i) + c) = page' ! (nat (?off i) + c)" by blast
      moreover have "blended_at page' page (nat (?off i)) p"
        unfolding blended_at_def using B(5-8) by simp
      ultimately show ?thesis using blended_at_cong [of page' page "nat (?off i)" p res page] by blast
    qed
    have rest: "0 \<le> ?off (i + 1 + int j) \<and> ?off (i + 1 + int j) + 3 < int (length page) \<and>
                blended_at res page (nat (?off (i + 1 + int j))) (ps ! j)" if "j < k'" for j
    proof -
      from IH that have a: "0 \<le> ?off (i + 1 + int j)" "?off (i + 1 + int j) + 3 < int (length page')"
        "blended_at res page' (nat (?off (i + 1 + int j))) (ps ! j)" by blast+
      have "page ! (nat (?off (i + 1 + int j)) + c) = page' ! (nat (?off (i + 1 + int j)) + c)" if "c < 4" for c
      proof -
        have "nat (?off (i + 1 + int j)) + c < nat (?off i) \<or> nat (?off i) + 3 < nat (?off (i + 1 + int j)) + c"
          using apart_nat [OF a(1) B(1) _ that] apart [OF \<open>j < k'\<close>] by blast
        then show ?thesis using B(4) by simp
      qed
      then have "\<forall>c<4. page ! (nat (?off (i + 1 + int j)) + c) = page' ! (nat (?off (i + 1 + int j)) + c)"
        by blast
      then have "blended_at res page (nat (?off (i + 1 + int j))) (ps ! j)"
        using blended_at_cong [OF a(3), of res page] by blast
      then show ?thesis using a B(3) by simp
    qed
    have all: "0 \<le> ?off (i + int j) \<and> ?off (i + int j) + 3 < int (length page) \<and>
                blended_at res page (nat (?off (i + int j))) ((p # ps) ! j)" if "j < k" for j
    proof (cases j)
      case 0
      then show ?thesis using first B(1,2) by simp
    next
      case (Suc j')
      then show ?thesis using rest [of j'] that k by (simp add: add.assoc)
    qed
    show ?thesis using len unch all by blast
  qed
qed

lemma drawCursor_loop_take:
  assumes "uint (Width_cursor cursor) \<noteq> 0" and "k < length ps" and "clipped buf cursor pos (i + int k)"
  shows "drawCursor_loop buf cursor pos i ps page = drawCursor_loop buf cursor pos i (take k ps) page"
  using assms
proof (induction ps arbitrary: i k page)
  case Nil
  then show ?case by simp
next
  case (Cons p ps)
  show ?case
  proof (cases k)
    case 0
    then show ?thesis using Cons.prems by simp
  next
    case (Suc k')
    then have "drawCursor_loop buf cursor pos (i + 1) ps pg = drawCursor_loop buf cursor pos (i + 1) (take k' ps) pg" for pg
      using Cons.IH [of k' "i + 1" pg] Cons.prems by (simp add: add.assoc)
    then show ?thesis using Suc by (simp add: Let_def split: sum.splits)
  qed
qed

lemma on_screen_in_page:
  assumes "\<not> off_screen buf row col" and "int (length page) = PageSize buf"
  shows "0 \<le> pixel_off buf row col" and "pixel_off buf row col + 3 < int (length page)"
proof -
  from assms(1) have b: "0 \<le> row" "row < Height buf" "0 \<le> col" "col < Width buf"
    by (auto simp: off_screen_def)
  then have "0 \<le> row * Width buf" by simp
  then show "0 \<le> pixel_off buf row col" using b by (simp add: pixel_off_def bytesPerPixel_def)
  have "(row + 1) * Width buf \<le> Height buf * Width buf" using b by (intro mult_right_mono) auto
  then have "row * Width buf + col + 1 \<le> Width buf * Height buf" using b by (simp add: algebra_simps)
  then show "pixel_off buf row col + 3 < int (length page)"
    using assms(2) by (simp add: pixel_off_def bytesPerPixel_def PageSize_def)
qed

lemma drawCursor_loop_no_panic:
  assumes "uint (Width_cursor cursor) \<noteq> 0" and "int (length page) = PageSize buf"
  shows "\<exists>res. drawCursor_loop buf cursor pos i ps page = Inr res"
  using assms
proof (induction ps arbitrary: i page)
  case Nil
  then show ?case by simp
next
  case (Cons p ps)
  show ?case
  proof (cases "clipped buf cursor pos i")
    case True
    then show ?thesis using Cons.prems by (simp add: Let_def)
  next
    case False
    from on_screen_in_page [OF False Cons.prems(2)]
    obtain page' where bp: "blend_pixel page (cursor_off buf cursor pos i) p = Inr page'"
      by (auto simp: blend_pixel_def Let_def)
    then have "int (length page') = PageSize buf" using blend_pixel_Inr(3) [OF bp] Cons.prems(2) by simp
    from Cons.IH [OF Cons.prems(1) this, of "i + 1"] show ?thesis
      using False bp Cons.prems(1) by (simp add: Let_def)
  qed
qed

subsection \<open>The blend of one cursor sample\<close>

text \<open>
  Claim C3. Let cursor sample \<open>i\<close> be one that the compositor blends: the position passes
  the test of line 309, and no sample up to \<open>i\<close> is clipped by the test of line 316.
  Then, in the page that \<open>drawCursor\<close> leaves, the alpha byte of the destination pixel
  is 255 and each colour channel is
  \<open>((srcAlpha + 1) * srcChannel + (256 - srcAlpha) * dstChannel) div 256\<close>, where
  \<open>dstChannel\<close> is the byte of the page before the call. For \<open>srcAlpha = 255\<close> this is
  the source channel, for \<open>srcAlpha = 0\<close> it is \<open>(1 * src + 256 * dst) div 256\<close>.
\<close>

theorem drawCursor_blend_formula:
  fixes cursor :: GetCursorImageReply and pos :: TranslateCoordinatesReply and buf :: Buffer
    and i :: nat
  defines "p \<equiv> CursorImage cursor ! i"
    and "n \<equiv> nat (cursor_off buf cursor pos (int i))"
  defines "a \<equiv> unat (drop_bit 24 p)"
    and "srcR \<equiv> unat (ucast (drop_bit 16 p) :: byte)"
    and "srcG \<equiv> unat (ucast (drop_bit 8 p) :: byte)"
    and "srcB \<equiv> unat (ucast p :: byte)"
  assumes run: "drawCursor (Some cursor) (Some pos) buf page = Inr res"
    and outer: "0 \<le> sint (DstY pos)" "0 \<le> sint (DstX pos)"
      "sint (DstY pos) \<le> Height buf" "sint (DstX pos) \<le> Width buf"
    and i: "i < length (CursorImage cursor)"
    and reached: "\<forall>j\<le>i. \<not> clipped buf cursor pos (int j)"
  shows "n + 3 < length res \<and>
         res ! (n + 3) = 255 \<and>
         unat (res ! (n + 2)) = ((a + 1) * srcR + (256 - a) * unat (page ! (n + 2))) div 256 \<and>
         unat (res ! (n + 1)) = ((a + 1) * srcG + (256 - a) * unat (page ! (n + 1))) div 256 \<and>
         unat (res ! n) = ((a + 1) * srcB + (256 - a) * unat (page ! n)) div 256 \<and>
         (a = 255 \<longrightarrow> unat (res ! (n + 2)) = srcR \<and> unat (res ! (n + 1)) = srcG \<and> unat (res ! n) = srcB) \<and>
         (a = 0 \<longrightarrow> unat (res ! (n + 2)) = (1 * srcR + 256 * unat (page ! (n + 2))) div 256 \<and>
                    unat (res ! (n + 1)) = (1 * srcG + 256 * unat (page ! (n + 1))) div 256 \<and>
                    unat (res ! n) = (1 * srcB + 256 * unat (page ! n)) div 256)"
proof -
  let ?img = "CursorImage cursor"
  from run outer have loop: "drawCursor_loop buf cursor pos 0 ?img page = Inr res"
    by (simp add: drawCursor_def)
  have k: "Suc i \<le> length ?img" using i by simp
  have on: "\<forall>j<Suc i. \<not> clipped buf cursor pos (0 + int j)" using reached by (simp add: less_Suc_eq_le)
  have ex: "\<exists>k. Suc i \<le> k \<and> k \<le> length ?img \<and> (\<forall>j<k. \<not> clipped buf cursor pos (0 + int j)) \<and>
           (k < length ?img \<longrightarrow> clipped buf cursor pos (0 + int k))"
  proof (cases "\<forall>j<length ?img. \<not> clipped buf cursor pos (0 + int j)")
    case True
    then show ?thesis using k by (intro exI [of _ "length ?img"]) simp
  next
    case False
    define k where "k = (LEAST j. j < length ?img \<and> clipped buf cursor pos (0 + int j))"
    from False have e: "\<exists>j. j < length ?img \<and> clipped buf cursor pos (0 + int j)" by blast
    from LeastI_ex [OF e] have kp: "k < length ?img" "clipped buf cursor pos (0 + int k)"
      unfolding k_def by blast+
    have km: "\<not> clipped buf cursor pos (0 + int j)" if "j < k" for j
    proof -
      have "\<not> (j < length ?img \<and> clipped buf cursor pos (0 + int j))"
        using not_less_Least that unfolding k_def by blast
      with that kp(1) show ?thesis by simp
    qed
    have "Suc i \<le> k" using on kp(2) by (meson not_less)
    then show ?thesis using kp km by (intro exI [of _ k]) simp
  qed
  then obtain k where kk: "Suc i \<le> k" "k \<le> length ?img"
    "\<forall>j<k. \<not> clipped buf cursor pos (0 + int j)"
    "k < length ?img \<longrightarrow> clipped buf cursor pos (0 + int k)" by blast
  from drawCursor_loop_char [OF loop _ kk(2,3,4)] kk(1)
  have len: "length res = length page"
    and rng: "cursor_off buf cursor pos (int i) + 3 < int (length page)" "0 \<le> cursor_off buf cursor pos (int i)"
    and bl: "blended_at res page n p"
    unfolding n_def p_def by (simp_all add: Suc_le_eq)
  have a: "a < 256" unfolding a_def by (rule alpha_lt)
  note bc = blend_channel_nat [of p, folded a_def]
  from bl have r3: "res ! (n + 3) = 255"
    and r2: "unat (res ! (n + 2)) = ((a + 1) * srcR + (256 - a) * unat (page ! (n + 2))) div 256"
    and r1: "unat (res ! (n + 1)) = ((a + 1) * srcG + (256 - a) * unat (page ! (n + 1))) div 256"
    and r0: "unat (res ! n) = ((a + 1) * srcB + (256 - a) * unat (page ! n)) div 256"
    unfolding blended_at_def srcR_def srcG_def srcB_def by (simp_all add: bc)
  have lt: "unat (x :: byte) < 256" for x using unsigned_less [of x] by simp
  have opaque: "(256 * s + d) div 256 = s" if "d < 256" for s d :: nat using that by simp
  have n3: "n + 3 < length res" using rng len unfolding n_def by linarith
  show ?thesis
    using n3 r3 r2 r1 r0 opaque [OF lt] by (simp add: add.commute)
qed


theorem drawCursor_blend_formula_witness:
  "drawCursor
     (Some \<lparr>X = 0, Y = 0, Width_cursor = 1, Height_cursor = 1, Xhot = 0, Yhot = 0,
            CursorImage = [0x80FF8040]\<rparr>)
     (Some \<lparr>DstX = 0, DstY = 0\<rparr>)
     \<lparr>Width = 1, Height = 1, Pages = 2, Data = [], ShmID = 0\<rparr>
     [10, 20, 30, 40] = Inr [37, 74, 143, 255] \<and>
   ([37, 74, 143, 255 :: byte] ! 3 = 255 \<and>
    unat ([37, 74, 143, 255 :: byte] ! 2) = ((128 + 1) * 255 + (256 - 128) * 30) div 256 \<and>
    unat ([37, 74, 143, 255 :: byte] ! 1) = ((128 + 1) * 128 + (256 - 128) * 20) div 256 \<and>
    unat ([37, 74, 143, 255 :: byte] ! 0) = ((128 + 1) * 64 + (256 - 128) * 10) div 256)"
proof -
  let ?cursor = "\<lparr>X = 0, Y = 0, Width_cursor = 1, Height_cursor = 1, Xhot = 0, Yhot = 0,
            CursorImage = [0x80FF8040]\<rparr>"
  let ?pos = "\<lparr>DstX = 0, DstY = 0\<rparr>"
  let ?buf = "\<lparr>Width = 1, Height = 1, Pages = 2, Data = [], ShmID = 0\<rparr>"
  have run: "drawCursor (Some ?cursor) (Some ?pos) ?buf [10, 20, 30, 40] = Inr [37, 74, 143, 255]"
    by (simp add: drawCursor_def Let_def dest_row_def dest_col_def off_screen_def pixel_off_def
        bytesPerPixel_def blend_pixel_def blend_channel_def)
  have on: "\<forall>j\<le>0. \<not> clipped ?buf ?cursor ?pos (int j)"
    by (simp add: dest_row_def dest_col_def off_screen_def)
  from drawCursor_blend_formula [OF run _ _ _ _ _ on]
  show ?thesis using run
    by (simp add: dest_row_def dest_col_def pixel_off_def bytesPerPixel_def)
qed

subsection \<open>The scan ends at the first clipped sample\<close>

text \<open>
  Claim C4. The samples are scanned in row-major order (sample \<open>i\<close> goes to row
  \<open>i div cursorWidth + posY - hotspotY\<close> and column \<open>i mod cursorWidth + posX - hotspotX\<close>).
  When sample \<open>k\<close> is the first whose destination is outside the page, the compositor
  processes none of the samples from \<open>k\<close> on: the result is that of the cursor image
  cut after its first \<open>k\<close> samples. Every byte of the page that is not one of the four
  bytes of a destination pixel of the samples before \<open>k\<close> is unchanged, and so is the
  length of the page. On a page of the size of the buffer's pages the call returns.
  (A cursor of width 0 with a non-empty image makes line 314 divide by zero.)
\<close>

theorem drawCursor_stops_at_first_clipped:
  fixes cursor :: GetCursorImageReply and pos :: TranslateCoordinatesReply and buf :: Buffer
  assumes w: "uint (Width_cursor cursor) \<noteq> 0"
    and k: "k < length (CursorImage cursor)"
    and before: "\<forall>j<k. \<not> clipped buf cursor pos (int j)"
    and first: "clipped buf cursor pos (int k)"
  shows "drawCursor (Some cursor) (Some pos) buf page =
           drawCursor (Some (cursor\<lparr>CursorImage := take k (CursorImage cursor)\<rparr>)) (Some pos) buf page \<and>
         (\<forall>res. drawCursor (Some cursor) (Some pos) buf page = Inr res \<longrightarrow>
            length res = length page \<and>
            (\<forall>n. (\<forall>j<k. n < nat (cursor_off buf cursor pos (int j)) \<or>
                          nat (cursor_off buf cursor pos (int j)) + 3 < n) \<longrightarrow> res ! n = page ! n)) \<and>
         (int (length page) = PageSize buf \<longrightarrow>
            (\<exists>res. drawCursor (Some cursor) (Some pos) buf page = Inr res))"
proof -
  let ?img = "CursorImage cursor"
  let ?cut = "cursor\<lparr>CursorImage := take k ?img\<rparr>"
  have same: "dest_row ?cut pos = dest_row cursor pos" "dest_col ?cut pos = dest_col cursor pos"
    by (simp_all add: dest_row_def dest_col_def fun_eq_iff)
  have loop_cut: "drawCursor_loop buf ?cut pos i ps pg = drawCursor_loop buf cursor pos i ps pg" for i ps pg
    by (induction ps arbitrary: i pg) (simp_all add: same Let_def split: sum.splits)
  have take: "drawCursor_loop buf cursor pos 0 ?img page = drawCursor_loop buf cursor pos 0 (take k ?img) page"
    using drawCursor_loop_take [OF w k, of buf pos 0 page] first by simp
  have c1: "drawCursor (Some cursor) (Some pos) buf page = drawCursor (Some ?cut) (Some pos) buf page"
    by (simp add: drawCursor_def loop_cut take)
  have c2: "length res = length page \<and>
            (\<forall>n. (\<forall>j<k. n < nat (cursor_off buf cursor pos (int j)) \<or>
                          nat (cursor_off buf cursor pos (int j)) + 3 < n) \<longrightarrow> res ! n = page ! n)"
    if r: "drawCursor (Some cursor) (Some pos) buf page = Inr res" for res
  proof (cases "drawCursor_loop buf cursor pos 0 ?img page = Inr res")
    case True
    from drawCursor_loop_char [OF True _ less_imp_le [OF k]] before first k
    show ?thesis by simp
  next
    case False
    with r have "res = page" by (auto simp: drawCursor_def split: if_splits)
    then show ?thesis by simp
  qed
  have c3: "\<exists>res. drawCursor (Some cursor) (Some pos) buf page = Inr res"
    if "int (length page) = PageSize buf"
    using drawCursor_loop_no_panic [OF w that, of pos 0 ?img] by (simp add: drawCursor_def)
  show ?thesis using c1 c2 c3 by blast
qed

theorem drawCursor_stops_at_first_clipped_witness:
  "drawCursor
     (Some \<lparr>X = 0, Y = 0, Width_cursor = 2, Height_cursor = 2, Xhot = 0, Yhot = 0,
            CursorImage = [0xFF010203, 0xFF040506, 0xFF070809, 0xFF0A0B0C]\<rparr>)
     (Some \<lparr>DstX = 1, DstY = 0\<rparr>)
     \<lparr>Width = 2, Height = 2, Pages = 2, Data = [], ShmID = 0\<rparr>
     [0, 0, 0, 0,  0, 0, 0, 0,  0, 0, 0, 0,  0, 0, 0, 0]
   = Inr [0, 0, 0, 0,  3, 2, 1, 255,  0, 0, 0, 0,  0, 0, 0, 0] \<and>
   drawCursor
     (Some \<lparr>X = 0, Y = 0, Width_cursor = 2, Height_cursor = 2, Xhot = 0, Yhot = 0,
            CursorImage = [0xFF010203]\<rparr>)
     (Some \<lparr>DstX = 1, DstY = 0\<rparr>)
     \<lparr>Width = 2, Height = 2, Pages = 2, Data = [], ShmID = 0\<rparr>
     [0, 0, 0, 0,  0, 0, 0, 0,  0, 0, 0, 0,  0, 0, 0, 0]
   = Inr [0, 0, 0, 0,  3, 2, 1, 255,  0, 0, 0, 0,  0, 0, 0, 0] \<and>
   \<not> clipped \<lparr>Width = 2, Height = 2, Pages = 2, Data = [], ShmID = 0\<rparr>
       \<lparr>X = 0, Y = 0, Width_cursor = 2, Height_cursor = 2, Xhot = 0, Yhot = 0,
            CursorImage = [0xFF010203, 0xFF040506, 0xFF070809, 0xFF0A0B0C]\<rparr>
       \<lparr>DstX = 1, DstY = 0\<rparr> 0 \<and>
   clipped \<lparr>Width = 2, Height = 2, Pages = 2, Data = [], ShmID = 0\<rparr>
       \<lparr>X = 0, Y = 0, Width_cursor = 2, Height_cursor = 2, Xhot = 0, Yhot = 0,
            CursorImage = [0xFF010203, 0xFF040506, 0xFF070809, 0xFF0A0B0C]\<rparr>
       \<lparr>DstX = 1, DstY = 0\<rparr> 1 \<and>
   \<not> clipped \<lparr>Width = 2, Height = 2, Pages = 2, Data = [], ShmID = 0\<rparr>
       \<lparr>X = 0, Y = 0, Width_cursor = 2, Height_cursor = 2, Xhot = 0, Yhot = 0,
            CursorImage = [0xFF010203, 0xFF040506, 0xFF070809, 0xFF0A0B0C]\<rparr>
       \<lparr>DstX = 1, DstY = 0\<rparr> 2"
proof -
  let ?cursor = "\<lparr>X = 0, Y = 0, Width_cursor = 2, Height_cursor = 2, Xhot = 0, Yhot = 0,
            CursorImage = [0xFF010203, 0xFF040506, 0xFF070809, 0xFF0A0B0C]\<rparr>"
  let ?pos = "\<lparr>DstX = 1, DstY = 0\<rparr>"
  let ?buf = "\<lparr>Width = 2, Height = 2, Pages = 2, Data = [], ShmID = 0\<rparr>"
  let ?page = "[0, 0, 0, 0,  0, 0, 0, 0,  0, 0, 0, 0,  0, 0, 0, 0] :: byte list"
  have w: "uint (Width_cursor ?cursor) \<noteq> 0" by simp
  have k: "1 < length (CursorImage ?cursor)" by simp
  have before: "\<forall>j<1. \<not> clipped ?buf ?cursor ?pos (int j)"
    by (simp add: dest_row_def dest_col_def off_screen_def)
  have first: "clipped ?buf ?cursor ?pos (int 1)"
    by (simp add: dest_row_def dest_col_def off_screen_def)
  have third: "\<not> clipped ?buf ?cursor ?pos 2"
    by (simp add: dest_row_def dest_col_def off_screen_def)
  have run: "drawCursor (Some ?cursor) (Some ?pos) ?buf ?page
             = Inr [0, 0, 0, 0,  3, 2, 1, 255,  0, 0, 0, 0,  0, 0, 0, 0]"
    by (simp add: drawCursor_def Let_def dest_row_def dest_col_def off_screen_def pixel_off_def
        bytesPerPixel_def blend_pixel_def blend_channel_def)
  from drawCursor_stops_at_first_clipped [OF w k before first, of ?page]
  show ?thesis using run before first third by simp
qed

subsection \<open>The test on the cursor position\<close>

text \<open>
  Claim C10. A translated position with a negative x or y makes \<open>drawCursor\<close> return
  with the page unchanged, whatever the cursor image and its hotspot are. A position
  with \<open>0 \<le> x \<le> Width\<close> and \<open>0 \<le> y \<le> Height\<close>, the two equalities included, is not
  rejected by the test of line 309 and the scan runs. At \<open>x = Width\<close> only samples left
  of the hotspot can be on the page, at \<open>y = Height\<close> only samples above it; the last
  two conjuncts are runs at \<open>x = Width\<close> and at \<open>y = Height\<close> in which such a sample is
  blended.
\<close>

theorem drawCursor_outer_bounds:
  fixes cursor :: GetCursorImageReply and pos :: TranslateCoordinatesReply and buf :: Buffer
  shows "(sint (DstX pos) < 0 \<or> sint (DstY pos) < 0 \<longrightarrow>
            drawCursor cursor_reply (Some pos) buf page = Inr page) \<and>
         (0 \<le> sint (DstX pos) \<and> 0 \<le> sint (DstY pos) \<and>
          sint (DstX pos) \<le> Width buf \<and> sint (DstY pos) \<le> Height buf \<longrightarrow>
            drawCursor (Some cursor) (Some pos) buf page =
              drawCursor_loop buf cursor pos 0 (CursorImage cursor) page) \<and>
         (sint (DstX pos) = Width buf \<and> 0 \<le> i \<and> \<not> clipped buf cursor pos i \<longrightarrow>
            i mod uint (Width_cursor cursor) < uint (Xhot cursor)) \<and>
         (sint (DstY pos) = Height buf \<and> 0 \<le> i \<and> \<not> clipped buf cursor pos i \<longrightarrow>
            i div uint (Width_cursor cursor) < uint (Yhot cursor)) \<and>
         drawCursor
           (Some \<lparr>X = 0, Y = 0, Width_cursor = 2, Height_cursor = 1, Xhot = 1, Yhot = 0,
                  CursorImage = [0xFF010203, 0xFF040506]\<rparr>)
           (Some \<lparr>DstX = 2, DstY = 0\<rparr>)
           \<lparr>Width = 2, Height = 1, Pages = 2, Data = [], ShmID = 0\<rparr>
           [0, 0, 0, 0,  0, 0, 0, 0]
         = Inr [0, 0, 0, 0,  3, 2, 1, 255] \<and>
         drawCursor
           (Some \<lparr>X = 0, Y = 0, Width_cursor = 1, Height_cursor = 2, Xhot = 0, Yhot = 1,
                  CursorImage = [0xFF010203, 0xFF040506]\<rparr>)
           (Some \<lparr>DstX = 0, DstY = 2\<rparr>)
           \<lparr>Width = 1, Height = 2, Pages = 2, Data = [], ShmID = 0\<rparr>
           [0, 0, 0, 0,  0, 0, 0, 0]
         = Inr [0, 0, 0, 0,  3, 2, 1, 255]"
proof -
  have a: "drawCursor cursor_reply (Some pos) buf page = Inr page"
    if "sint (DstX pos) < 0 \<or> sint (DstY pos) < 0"
    using that by (auto simp: drawCursor_def split: option.splits)
  have b: "drawCursor (Some cursor) (Some pos) buf page =
             drawCursor_loop buf cursor pos 0 (CursorImage cursor) page"
    if "0 \<le> sint (DstX pos) \<and> 0 \<le> sint (DstY pos) \<and>
        sint (DstX pos) \<le> Width buf \<and> sint (DstY pos) \<le> Height buf"
    using that by (simp add: drawCursor_def)
  have c: "i mod uint (Width_cursor cursor) < uint (Xhot cursor)"
    if "sint (DstX pos) = Width buf \<and> 0 \<le> i \<and> \<not> clipped buf cursor pos i"
    using that by (simp add: off_screen_def dest_col_def)
  have d: "i div uint (Width_cursor cursor) < uint (Yhot cursor)"
    if "sint (DstY pos) = Height buf \<and> 0 \<le> i \<and> \<not> clipped buf cursor pos i"
    using that by (simp add: off_screen_def dest_row_def)
  have e: "drawCursor
           (Some \<lparr>X = 0, Y = 0, Width_cursor = 2, Height_cursor = 1, Xhot = 1, Yhot = 0,
                  CursorImage = [0xFF010203, 0xFF040506]\<rparr>)
           (Some \<lparr>DstX = 2, DstY = 0\<rparr>)
           \<lparr>Width = 2, Height = 1, Pages = 2, Data = [], ShmID = 0\<rparr>
           [0, 0, 0, 0,  0, 0, 0, 0]
         = Inr [0, 0, 0, 0,  3, 2, 1, 255]"
    by (simp add: drawCursor_def Let_def dest_row_def dest_col_def off_screen_def pixel_off_def
        bytesPerPixel_def blend_pixel_def blend_channel_def)
  have f: "drawCursor
           (Some \<lparr>X = 0, Y = 0, Width_cursor = 1, Height_cursor = 2, Xhot = 0, Yhot = 1,
                  CursorImage = [0xFF010203, 0xFF040506]\<rparr>)
           (Some \<lparr>DstX = 0, DstY = 2\<rparr>)
           \<lparr>Width = 1, Height = 2, Pages = 2, Data = [], ShmID = 0\<rparr>
           [0, 0, 0, 0,  0, 0, 0, 0]
         = Inr [0, 0, 0, 0,  3, 2, 1, 255]"
    by (simp add: drawCursor_def Let_def dest_row_def dest_col_def off_screen_def pixel_off_def
        bytesPerPixel_def blend_pixel_def blend_channel_def)
  show ?thesis using a b c d e f by blast
qed

theorem drawCursor_outer_bounds_witness:
  "sint (DstX \<lparr>DstX = - 1, DstY = 0\<rparr>) < 0 \<and>
   \<not> clipped \<lparr>Width = 2, Height = 1, Pages = 2, Data = [], ShmID = 0\<rparr>
       \<lparr>X = 0, Y = 0, Width_cursor = 2, Height_cursor = 1, Xhot = 0, Yhot = 0,
        CursorImage = [0xFF010203, 0xFF040506]\<rparr>
       \<lparr>DstX = - 1, DstY = 0\<rparr> 1 \<and>
   drawCursor
     (Some \<lparr>X = 0, Y = 0, Width_cursor = 2, Height_cursor = 1, Xhot = 0, Yhot = 0,
            CursorImage = [0xFF010203, 0xFF040506]\<rparr>)
     (Some \<lparr>DstX = - 1, DstY = 0\<rparr>)
     \<lparr>Width = 2, Height = 1, Pages = 2, Data = [], ShmID = 0\<rparr>
     [9, 9, 9, 9,  9, 9, 9, 9]
   = Inr [9, 9, 9, 9,  9, 9, 9, 9] \<and>
   sint (DstX \<lparr>DstX = 2, DstY = 0\<rparr>) = Width \<lparr>Width = 2, Height = 1, Pages = 2, Data = [], ShmID = 0\<rparr> \<and>
   \<not> clipped \<lparr>Width = 2, Height = 1, Pages = 2, Data = [], ShmID = 0\<rparr>
       \<lparr>X = 0, Y = 0, Width_cursor = 2, Height_cursor = 1, Xhot = 1, Yhot = 0,
        CursorImage = [0xFF010203, 0xFF040506]\<rparr>
       \<lparr>DstX = 2, DstY = 0\<rparr> 0 \<and>
   (0::int) mod uint (Width_cursor \<lparr>X = 0, Y = 0, Width_cursor = 2, Height_cursor = 1, Xhot = 1, Yhot = 0,
        CursorImage = [0xFF010203, 0xFF040506]\<rparr>) < 1"
proof -
  let ?buf = "\<lparr>Width = 2, Height = 1, Pages = 2, Data = [], ShmID = 0\<rparr>"
  let ?neg = "\<lparr>DstX = - 1, DstY = 0\<rparr>"
  let ?edge = "\<lparr>DstX = 2, DstY = 0\<rparr>"
  let ?c0 = "\<lparr>X = 0, Y = 0, Width_cursor = 2, Height_cursor = 1, Xhot = 0, Yhot = 0,
        CursorImage = [0xFF010203, 0xFF040506]\<rparr>"
  let ?c1 = "\<lparr>X = 0, Y = 0, Width_cursor = 2, Height_cursor = 1, Xhot = 1, Yhot = 0,
        CursorImage = [0xFF010203, 0xFF040506]\<rparr>"
  have neg: "sint (DstX ?neg) < 0" by simp
  have inside: "\<not> clipped ?buf ?c0 ?neg 1"
    by (simp add: dest_row_def dest_col_def off_screen_def)
  have edge: "sint (DstX ?edge) = Width ?buf" by simp
  have on0: "\<not> clipped ?buf ?c1 ?edge 0"
    by (simp add: dest_row_def dest_col_def off_screen_def)
  from drawCursor_outer_bounds [of ?neg "Some ?c0" ?buf "[9, 9, 9, 9,  9, 9, 9, 9]" ?c1 0]
    drawCursor_outer_bounds [of ?edge "Some ?c0" ?buf "[]" ?c1 0]
  show ?thesis using neg inside edge on0 by simp
qed

section \<open>Properties of the capture loop\<close>

subsection \<open>Lengths and the invariant of the loop\<close>

lemma length_store_bytes [simp]: "length (store_bytes mem off bs) = length mem"
  by (auto simp: store_bytes_def min_def)

lemma length_go_copy [simp]: "length (go_copy dst src) = length dst"
  by (auto simp: go_copy_def min_def)

lemma length_copy_at [simp]: "length (copy_at dst lo src) = length dst"
  by (auto simp: copy_at_def min_def)

lemma nth_copy_at:
  assumes "lo + length src \<le> length dst" and "n < length dst"
  shows "copy_at dst lo src ! n = (if lo \<le> n \<and> n < lo + length src then src ! (n - lo) else dst ! n)"
  using assms by (auto simp: copy_at_def go_copy_def nth_append min_def)

lemma PageSize_nonneg: "0 \<le> Width buf \<Longrightarrow> 0 \<le> Height buf \<Longrightarrow> 0 \<le> PageSize buf"
  by (simp add: PageSize_def bytesPerPixel_def)

lemma capture_start_inv:
  assumes "capture_start width height shm pix = Inr st"
  shows "capture_inv st"
proof -
  from assms obtain shmid where st: "st = \<lparr>cap_buf = \<lparr>Width = uint width, Height = uint height, Pages = 2,
         Data = replicate (nat (uint width * uint height * 2 * bytesPerPixel)) 0, ShmID = shmid\<rparr>,
       cap_width = width, cap_height = height, cap_i = 0, cap_pix = pix,
       cap_scratch = replicate (nat (uint width * uint height * bytesPerPixel)) 0\<rparr>"
    by (auto simp: capture_start_def NewBuffer_def PageSize_def split: option.splits)
  have "uint width < 65536" "uint height < 65536"
    using uint_bounded [of width] uint_bounded [of height] by simp_all
  then show ?thesis unfolding st capture_inv_def
    by (simp add: PageSize_def bytesPerPixel_def)
qed

lemma go_rem_2: "i = 0 \<or> i = 1 \<Longrightarrow> go_rem (i + 1) 2 = 1 - i"
  by (auto simp: go_rem_def)


lemma capture_iter_inv:
  assumes "capture_inv st" and "capture_iter st inp = Inr (st', effs)"
  shows "capture_inv st'"
proof (cases inp)
  case (ConfigureNotify ew eh pr)
  with assms show ?thesis
    by (auto simp: capture_iter_def capture_inv_def Let_def split: option.splits if_splits)
next
  case (Capture reply cr pr)
  show ?thesis
  proof (cases "reply_err reply")
    case True
    with assms Capture show ?thesis
      by (auto simp: capture_iter_def capture_inv_def Let_def PageSize_def)
  next
    case False
    with assms(2) Capture obtain pg page1 scratch1 page2 where
      st': "st' = st\<lparr>cap_buf := (cap_buf st)\<lparr>Data := store_bytes
               (store_bytes (Data (cap_buf st)) (unat (word_of_int (PageOffset (cap_buf st) (cap_i st)) :: 32 word)) (stored reply))
               (fst pg) page2\<rparr>,
             cap_scratch := scratch1, cap_i := go_rem (cap_i st + 1) 2\<rparr>"
      and rc: "reconcile (cap_buf st) (clamp_dim (Width (cap_buf st)) (cap_width st))
                 (clamp_dim (Height (cap_buf st)) (cap_height st)) (cap_scratch st)
                 (slice_bytes (store_bytes (Data (cap_buf st)) (unat (word_of_int (PageOffset (cap_buf st) (cap_i st)) :: 32 word)) (stored reply)) pg)
               = Inr (page1, scratch1)"
      by (auto simp: capture_iter_def Let_def split: sum.splits prod.splits)
    from rc have "length scratch1 = length (cap_scratch st)"
      by (auto simp: reconcile_def Let_def split: if_splits sum.splits)
    with assms(1) show ?thesis unfolding st'
      by (auto simp: capture_inv_def PageSize_def go_rem_2)
  qed
qed

lemma capture_run_inv:
  assumes "capture_inv st" and "capture_run st inps = Inr (st', effs)"
  shows "capture_inv st'"
  using assms
proof (induction inps arbitrary: st effs)
  case Nil
  then show ?case by simp
next
  case (Cons inp inps)
  from Cons.prems(2) obtain st1 e1 e2 where
    a: "capture_iter st inp = Inr (st1, e1)" and b: "capture_run st1 inps = Inr (st', e2)"
    by (auto split: sum.splits prod.splits)
  from Cons.IH [OF capture_iter_inv [OF Cons.prems(1) a] b] show ?case .
qed

subsection \<open>Spreading the rows\<close>

lemma row_range:
  fixes r i c W4 w4 :: int
  assumes "0 \<le> c" "c < W4" "w4 \<le> W4" "0 \<le> w4"
  shows "(i * W4 \<le> r * W4 + c \<and> r * W4 + c < i * W4 + w4) \<longleftrightarrow> (r = i \<and> c < w4)"
proof -
  have W: "0 < W4" using assms by linarith
  consider "r < i" | "r = i" | "i < r" by linarith
  then show ?thesis
  proof cases
    case 1
    then have "(r + 1) * W4 \<le> i * W4" using W by (intro mult_right_mono) auto
    then have "r * W4 + c < i * W4" using assms by (simp add: algebra_simps)
    with 1 show ?thesis by auto
  next
    case 2
    then show ?thesis using assms by auto
  next
    case 3
    then have "(i + 1) * W4 \<le> r * W4" using W by (intro mult_right_mono) auto
    then have "i * W4 + w4 \<le> r * W4 + c" using assms by (simp add: algebra_simps)
    with 3 show ?thesis by auto
  qed
qed

lemma row_in_page:
  fixes r c W H :: int
  assumes "0 \<le> r" "r < H" "0 \<le> c" "c < W * 4"
  shows "0 \<le> r * W * 4 + c" and "r * W * 4 + c < W * H * 4"
proof -
  have W: "0 < W" using assms by linarith
  then have "0 \<le> r * W" using assms by simp
  then show "0 \<le> r * W * 4 + c" using assms by simp
  have "(r + 1) * W \<le> H * W" using assms W by (intro mult_right_mono) auto
  then show "r * W * 4 + c < W * H * 4" using assms by (simp add: algebra_simps)
qed

lemma reconcile_rows_char:
  assumes w: "0 \<le> w" "w \<le> Width buf" and i: "0 \<le> i" and h: "h \<le> Height buf"
    and lp: "int (length page) = PageSize buf" and ls: "int (length scratch) = PageSize buf"
  shows "\<exists>page'. reconcile_rows buf w h scratch i page = Inr page' \<and> length page' = length page \<and>
     (\<forall>r c. 0 \<le> r \<longrightarrow> r < Height buf \<longrightarrow> 0 \<le> c \<longrightarrow> c < Width buf * 4 \<longrightarrow>
        page' ! nat (r * Width buf * 4 + c) =
          (if i \<le> r \<and> r < h \<and> c < w * 4 then scratch ! nat (r * w * 4 + c)
           else page ! nat (r * Width buf * 4 + c)))"
  using i lp
proof (induction "nat (h - i)" arbitrary: i page)
  case 0
  then have "\<not> i < h" by simp
  then show ?case by (subst reconcile_rows.simps) auto
next
  case (Suc k)
  let ?W = "Width buf" and ?H = "Height buf"
  from Suc.hyps(2) have ih: "i < h" by linarith
  let ?lo = "i * ?W * 4" and ?a = "i * w * 4" and ?b = "(i + 1) * w * 4"
  define src where "src = take (nat ?b - nat ?a) (drop (nat ?a) scratch)"
  let ?src = src
  let ?page1 = "copy_at page (nat ?lo) ?src"
  have W0: "0 \<le> ?W" using w by linarith
  have iH: "i + 1 \<le> ?H" using ih h by linarith
  have lo0: "0 \<le> ?lo" using Suc.prems(1) W0 by simp
  have "i * ?W \<le> ?H * ?W" using iH W0 by (intro mult_right_mono) auto
  then have lolen: "?lo \<le> int (length page)"
    using Suc.prems(2) by (simp add: PageSize_def bytesPerPixel_def algebra_simps)
  have a0: "0 \<le> ?a" using Suc.prems(1) w by simp
  have ab: "?a \<le> ?b" using w by (simp add: algebra_simps)
  have "(i + 1) * w \<le> ?H * ?W" using iH w Suc.prems(1) by (intro mult_mono) auto
  then have blen: "?b \<le> int (length scratch)"
    using ls by (simp add: PageSize_def bytesPerPixel_def algebra_simps)
  have step: "reconcile_rows buf w h scratch i page = reconcile_rows buf w h scratch (i + 1) ?page1"
    using ih lo0 lolen a0 ab blen
    by (subst reconcile_rows.simps) (simp add: Let_def bytesPerPixel_def src_def)
  have lsrc: "int (length ?src) = w * 4"
    unfolding src_def using a0 ab blen by (simp add: algebra_simps)
  have "(i + 1) * ?W \<le> ?H * ?W" using iH W0 by (intro mult_right_mono) auto
  then have fits: "?lo + w * 4 \<le> int (length page)"
    using w Suc.prems(2) by (simp add: PageSize_def bytesPerPixel_def algebra_simps)
  have fitsn: "nat ?lo + length ?src \<le> length page"
    using fits lsrc lo0 by linarith
  have k: "k = nat (h - (i + 1))" using Suc.hyps(2) by linarith
  have l1: "int (length ?page1) = PageSize buf" using Suc.prems(2) by simp
  from Suc.hyps(1) [OF k _ l1] Suc.prems(1)
  obtain page' where res: "reconcile_rows buf w h scratch (i + 1) ?page1 = Inr page'"
    and len: "length page' = length ?page1"
    and rows: "\<And>r c. 0 \<le> r \<Longrightarrow> r < ?H \<Longrightarrow> 0 \<le> c \<Longrightarrow> c < ?W * 4 \<Longrightarrow>
        page' ! nat (r * ?W * 4 + c) =
          (if i + 1 \<le> r \<and> r < h \<and> c < w * 4 then scratch ! nat (r * w * 4 + c)
           else ?page1 ! nat (r * ?W * 4 + c))"
    by auto
  have "page' ! nat (r * ?W * 4 + c) =
          (if i \<le> r \<and> r < h \<and> c < w * 4 then scratch ! nat (r * w * 4 + c)
           else page ! nat (r * ?W * 4 + c))"
    if rc: "0 \<le> r" "r < ?H" "0 \<le> c" "c < ?W * 4" for r c
  proof -
    let ?n = "r * ?W * 4 + c"
    from row_in_page [OF rc] have n: "0 \<le> ?n" "?n < int (length page)"
      using Suc.prems(2) by (simp_all add: PageSize_def bytesPerPixel_def)
    have nn: "nat ?n < length page" using n by linarith
    have rr: "(?lo \<le> ?n \<and> ?n < ?lo + w * 4) \<longleftrightarrow> (r = i \<and> c < w * 4)"
      using row_range [of c "?W * 4" "w * 4" i r] rc w by (simp add: algebra_simps)
    have p1: "?page1 ! nat ?n = (if r = i \<and> c < w * 4 then scratch ! nat (r * w * 4 + c) else page ! nat ?n)"
    proof (cases "r = i \<and> c < w * 4")
      case True
      then have yes: "nat ?lo \<le> nat ?n \<and> nat ?n < nat ?lo + length ?src"
        using rr lsrc lo0 n by linarith
      have "?page1 ! nat ?n = ?src ! (nat ?n - nat ?lo)"
        by (subst nth_copy_at [OF fitsn nn]) (use yes in \<open>simp only: simp_thms if_True\<close>)
      also have "nat ?n - nat ?lo = nat c" using True rc lo0 by (simp add: nat_add_distrib)
      also have "?src ! nat c = scratch ! (nat ?a + nat c)"
      proof -
        have e: "?b = ?a + w * 4" by (simp add: algebra_simps)
        have "nat ?b - nat ?a = nat (w * 4)"
          unfolding e using a0 w(1) by (simp add: nat_add_distrib)
        moreover have "nat c < nat (w * 4)" using True rc by linarith
        ultimately have "nat c < nat ?b - nat ?a" by simp
        then have "?src ! nat c = drop (nat ?a) scratch ! nat c" unfolding src_def by (rule nth_take)
        also have "\<dots> = scratch ! (nat ?a + nat c)"
          using a0 ab blen by (intro nth_drop) linarith
        finally show ?thesis .
      qed
      also have "nat ?a + nat c = nat (r * w * 4 + c)" using True a0 rc by (simp add: nat_add_distrib)
      finally show ?thesis by (simp only: True if_True simp_thms)
    next
      case False
      then have ni: "\<not> (nat ?lo \<le> nat ?n \<and> nat ?n < nat ?lo + length ?src)"
        using rr lsrc lo0 n by linarith
      have "?page1 ! nat ?n = page ! nat ?n"
        by (subst nth_copy_at [OF fitsn nn]) (use ni in \<open>simp only: simp_thms if_False\<close>)
      then show ?thesis by (simp only: False if_False)
    qed
    show ?thesis using rows [OF rc] p1 ih by (auto simp: not_less)
  qed
  then show ?case using step res len by simp
qed

lemma go_copy_same_length: "length dst = length src \<Longrightarrow> go_copy dst src = src"
  by (simp add: go_copy_def)

lemma reconcile_char:
  assumes w: "uint w \<le> Width buf" and h: "uint h \<le> Height buf"
    and part: "uint w < Width buf \<or> uint h < Height buf"
    and lp: "int (length page) = PageSize buf" and ls: "int (length scratch) = PageSize buf"
  shows "\<exists>page'. reconcile buf w h scratch page = Inr (page', page) \<and>
           length page' = length page \<and>
           (\<forall>r c. 0 \<le> r \<and> r < uint h \<and> 0 \<le> c \<and> c < uint w * 4 \<longrightarrow>
              page' ! nat (r * Width buf * 4 + c) = page ! nat (r * uint w * 4 + c)) \<and>
           (\<forall>r c. 0 \<le> r \<and> r < Height buf \<and> 0 \<le> c \<and> c < Width buf * 4 \<and>
                  (uint h \<le> r \<or> uint w * 4 \<le> c) \<longrightarrow>
              page' ! nat (r * Width buf * 4 + c) = 0)"
proof -
  let ?zero = "replicate (length page) (0 :: byte)"
  have sc: "go_copy scratch page = page" using lp ls by (intro go_copy_same_length) linarith
  have lz: "int (length ?zero) = PageSize buf" using lp by simp
  from reconcile_rows_char [where w = "uint w" and h = "uint h" and buf = buf and i = 0
      and page = ?zero and scratch = page, OF _ w _ h lz lp]
  obtain page' where res: "reconcile_rows buf (uint w) (uint h) page 0 ?zero = Inr page'"
    and len: "length page' = length ?zero"
    and rows: "\<And>r c. 0 \<le> r \<Longrightarrow> r < Height buf \<Longrightarrow> 0 \<le> c \<Longrightarrow> c < Width buf * 4 \<Longrightarrow>
        page' ! nat (r * Width buf * 4 + c) =
          (if 0 \<le> r \<and> r < uint h \<and> c < uint w * 4 then page ! nat (r * uint w * 4 + c)
           else ?zero ! nat (r * Width buf * 4 + c))"
    by auto
  have eq: "reconcile buf w h scratch page = Inr (page', page)"
    using part res by (simp add: reconcile_def Let_def sc)
  have inside: "page' ! nat (r * Width buf * 4 + c) = page ! nat (r * uint w * 4 + c)"
    if "0 \<le> r \<and> r < uint h \<and> 0 \<le> c \<and> c < uint w * 4" for r c
    using rows [of r c] that w h by auto
  have outside: "page' ! nat (r * Width buf * 4 + c) = 0"
    if o: "0 \<le> r \<and> r < Height buf \<and> 0 \<le> c \<and> c < Width buf * 4 \<and> (uint h \<le> r \<or> uint w * 4 \<le> c)" for r c
  proof -
    from o have rc: "0 \<le> r" "r < Height buf" "0 \<le> c" "c < Width buf * 4" by auto
    from row_in_page [OF rc] have "nat (r * Width buf * 4 + c) < length page"
      using lp by (simp add: PageSize_def bytesPerPixel_def)
    then have "?zero ! nat (r * Width buf * 4 + c) = 0" by simp
    moreover have "\<not> (0 \<le> r \<and> r < uint h \<and> c < uint w * 4)" using o by auto
    ultimately show ?thesis using rows [OF rc] by (simp only: if_False)
  qed
  show ?thesis using eq len inside outside by auto
qed

subsection \<open>Reconciliation of a partial fetch\<close>

text \<open>
  Claim C5. Let the fetch be partial (\<open>fetchW < storeWidth\<close> or \<open>fetchH < storeHeight\<close>),
  within the buffer (\<open>fetchW \<le> storeWidth\<close>, \<open>fetchH \<le> storeHeight\<close>: the clamp of lines
  263-270), and let the page and the scratch buffer have the size of a page. Then the
  reconciliation returns, the scratch buffer holds the page as fetched, and in the new
  page byte \<open>c\<close> of row \<open>r\<close>, at offset \<open>r * storeWidth * 4 + c\<close>, is byte \<open>c\<close> of the fetched
  row \<open>r\<close> (which the fetch left at \<open>r * fetchW * 4 + c\<close>) for \<open>r < fetchH\<close> and
  \<open>c < fetchW * 4\<close>, and is zero everywhere else on the page. The second conjunct is the
  400 x 300 window in the 800 x 600 page: rows 300..599 are zero, columns 400..799 of
  rows 0..299 are zero, columns 0..399 of rows 0..299 are the fetched ones.
\<close>

theorem reconcile_partial_fetch:
  "(uint w \<le> Width buf \<and> uint h \<le> Height buf \<and> (uint w < Width buf \<or> uint h < Height buf) \<and>
    int (length page) = PageSize buf \<and> int (length scratch) = PageSize buf \<longrightarrow>
      (\<exists>page'. reconcile buf w h scratch page = Inr (page', page) \<and>
         length page' = length page \<and>
         (\<forall>r c. 0 \<le> r \<and> r < uint h \<and> 0 \<le> c \<and> c < uint w * 4 \<longrightarrow>
            page' ! nat (r * Width buf * 4 + c) = page ! nat (r * uint w * 4 + c)) \<and>
         (\<forall>r c. 0 \<le> r \<and> r < Height buf \<and> 0 \<le> c \<and> c < Width buf * 4 \<and>
                (uint h \<le> r \<or> uint w * 4 \<le> c) \<longrightarrow>
            page' ! nat (r * Width buf * 4 + c) = 0))) \<and>
   (Width buf = 800 \<and> Height buf = 600 \<and> length page = 1920000 \<and> length scratch = 1920000 \<longrightarrow>
      (\<exists>page'. reconcile buf 400 300 scratch page = Inr (page', page) \<and>
         (\<forall>r x k. 0 \<le> r \<and> r < 300 \<and> 0 \<le> x \<and> x < 400 \<and> 0 \<le> k \<and> k < 4 \<longrightarrow>
            page' ! nat (r * 800 * 4 + x * 4 + k) = page ! nat (r * 400 * 4 + x * 4 + k)) \<and>
         (\<forall>r x k. 300 \<le> r \<and> r < 600 \<and> 0 \<le> x \<and> x < 800 \<and> 0 \<le> k \<and> k < 4 \<longrightarrow>
            page' ! nat (r * 800 * 4 + x * 4 + k) = 0) \<and>
         (\<forall>r x k. 0 \<le> r \<and> r < 300 \<and> 400 \<le> x \<and> x < 800 \<and> 0 \<le> k \<and> k < 4 \<longrightarrow>
            page' ! nat (r * 800 * 4 + x * 4 + k) = 0)))"
proof (intro conjI impI)
  assume "uint w \<le> Width buf \<and> uint h \<le> Height buf \<and> (uint w < Width buf \<or> uint h < Height buf) \<and>
    int (length page) = PageSize buf \<and> int (length scratch) = PageSize buf"
  then show "\<exists>page'. reconcile buf w h scratch page = Inr (page', page) \<and>
         length page' = length page \<and>
         (\<forall>r c. 0 \<le> r \<and> r < uint h \<and> 0 \<le> c \<and> c < uint w * 4 \<longrightarrow>
            page' ! nat (r * Width buf * 4 + c) = page ! nat (r * uint w * 4 + c)) \<and>
         (\<forall>r c. 0 \<le> r \<and> r < Height buf \<and> 0 \<le> c \<and> c < Width buf * 4 \<and>
                (uint h \<le> r \<or> uint w * 4 \<le> c) \<longrightarrow>
            page' ! nat (r * Width buf * 4 + c) = 0)"
    using reconcile_char [of w buf h page scratch] by blast
next
  assume ex: "Width buf = 800 \<and> Height buf = 600 \<and> length page = 1920000 \<and> length scratch = 1920000"
  then have ps: "PageSize buf = 1920000" by (simp add: PageSize_def bytesPerPixel_def)
  have "uint (400 :: 16 word) \<le> Width buf" "uint (300 :: 16 word) \<le> Height buf"
    "uint (400 :: 16 word) < Width buf \<or> uint (300 :: 16 word) < Height buf"
    "int (length page) = PageSize buf" "int (length scratch) = PageSize buf"
    using ex ps by simp_all
  from reconcile_char [OF this]
  obtain page' where res: "reconcile buf 400 300 scratch page = Inr (page', page)"
    and inside: "\<And>r c. 0 \<le> r \<and> r < 300 \<and> 0 \<le> c \<and> c < 1600 \<Longrightarrow>
            page' ! nat (r * 800 * 4 + c) = page ! nat (r * 400 * 4 + c)"
    and outside: "\<And>r c. 0 \<le> r \<and> r < 600 \<and> 0 \<le> c \<and> c < 3200 \<and> (300 \<le> r \<or> 1600 \<le> c) \<Longrightarrow>
            page' ! nat (r * 800 * 4 + c) = 0"
    using ex by auto
  have a: "page' ! nat (r * 800 * 4 + x * 4 + k) = page ! nat (r * 400 * 4 + x * 4 + k)"
    if "0 \<le> r \<and> r < 300 \<and> 0 \<le> x \<and> x < 400 \<and> 0 \<le> k \<and> k < 4" for r x k :: int
    using inside [of r "x * 4 + k"] that by (simp add: add.assoc)
  have b: "page' ! nat (r * 800 * 4 + x * 4 + k) = 0"
    if "300 \<le> r \<and> r < 600 \<and> 0 \<le> x \<and> x < 800 \<and> 0 \<le> k \<and> k < 4" for r x k :: int
    using outside [of r "x * 4 + k"] that by (simp add: add.assoc)
  have c: "page' ! nat (r * 800 * 4 + x * 4 + k) = 0"
    if "0 \<le> r \<and> r < 300 \<and> 400 \<le> x \<and> x < 800 \<and> 0 \<le> k \<and> k < 4" for r x k :: int
    using outside [of r "x * 4 + k"] that by (simp add: add.assoc)
  show "\<exists>page'. reconcile buf 400 300 scratch page = Inr (page', page) \<and>
         (\<forall>r x k. 0 \<le> r \<and> r < 300 \<and> 0 \<le> x \<and> x < 400 \<and> 0 \<le> k \<and> k < 4 \<longrightarrow>
            page' ! nat (r * 800 * 4 + x * 4 + k) = page ! nat (r * 400 * 4 + x * 4 + k)) \<and>
         (\<forall>r x k. 300 \<le> r \<and> r < 600 \<and> 0 \<le> x \<and> x < 800 \<and> 0 \<le> k \<and> k < 4 \<longrightarrow>
            page' ! nat (r * 800 * 4 + x * 4 + k) = 0) \<and>
         (\<forall>r x k. 0 \<le> r \<and> r < 300 \<and> 400 \<le> x \<and> x < 800 \<and> 0 \<le> k \<and> k < 4 \<longrightarrow>
            page' ! nat (r * 800 * 4 + x * 4 + k) = 0)"
    using res a b c by blast
qed

theorem reconcile_partial_fetch_witness:
  "uint (1 :: 16 word) \<le> Width \<lparr>Width = 2, Height = 2, Pages = 2, Data = [], ShmID = 0\<rparr> \<and>
   uint (2 :: 16 word) \<le> Height \<lparr>Width = 2, Height = 2, Pages = 2, Data = [], ShmID = 0\<rparr> \<and>
   uint (1 :: 16 word) < Width \<lparr>Width = 2, Height = 2, Pages = 2, Data = [], ShmID = 0\<rparr> \<and>
   int (length [1, 2, 3, 4, 5, 6, 7, 8, 9, 10, 11, 12, 13, 14, 15, 16 :: byte]) =
     PageSize \<lparr>Width = 2, Height = 2, Pages = 2, Data = [], ShmID = 0\<rparr> \<and>
   int (length (replicate 16 (0 :: byte))) =
     PageSize \<lparr>Width = 2, Height = 2, Pages = 2, Data = [], ShmID = 0\<rparr> \<and>
   reconcile \<lparr>Width = 2, Height = 2, Pages = 2, Data = [], ShmID = 0\<rparr> 1 2 (replicate 16 0)
     [1, 2, 3, 4, 5, 6, 7, 8, 9, 10, 11, 12, 13, 14, 15, 16]
   = Inr ([1, 2, 3, 4, 0, 0, 0, 0, 5, 6, 7, 8, 0, 0, 0, 0],
          [1, 2, 3, 4, 5, 6, 7, 8, 9, 10, 11, 12, 13, 14, 15, 16])"
proof -
  let ?buf = "\<lparr>Width = 2, Height = 2, Pages = 2, Data = [], ShmID = 0\<rparr>"
  let ?page = "[1, 2, 3, 4, 5, 6, 7, 8, 9, 10, 11, 12, 13, 14, 15, 16 :: byte]"
  have hyp: "uint (1 :: 16 word) \<le> Width ?buf \<and> uint (2 :: 16 word) \<le> Height ?buf \<and>
     (uint (1 :: 16 word) < Width ?buf \<or> uint (2 :: 16 word) < Height ?buf) \<and>
     int (length ?page) = PageSize ?buf \<and> int (length (replicate 16 (0 :: byte))) = PageSize ?buf"
    by (simp add: PageSize_def bytesPerPixel_def)
  have run: "reconcile ?buf 1 2 (replicate 16 0) ?page
     = Inr ([1, 2, 3, 4, 0, 0, 0, 0, 5, 6, 7, 8, 0, 0, 0, 0], ?page)"
    by code_simp
  from reconcile_partial_fetch [of 1 ?buf 2 ?page "replicate 16 0", THEN conjunct1, rule_format, OF hyp]
  show ?thesis using hyp run by simp
qed

subsection \<open>The fetch request\<close>

lemma uint_clamp_dim:
  assumes "0 \<le> limit" "limit < 65536"
  shows "uint (clamp_dim limit v) = min (uint v) limit"
proof (cases "uint v > limit")
  case True
  have "uint (word_of_int limit :: 16 word) = limit"
    using assms by (simp add: uint_word_of_int)
  with True show ?thesis by (simp add: clamp_dim_def)
next
  case False
  then show ?thesis by (simp add: clamp_dim_def)
qed

lemma reachable_inv:
  assumes "capture_start width0 height0 shm pix0 = Inr st0"
    and "capture_run st0 inps = Inr (st, effs0)"
  shows "capture_inv st"
  using capture_run_inv [OF capture_start_inv [OF assms(1)] assms(2)] .

lemma capture_iter_request:
  assumes "capture_iter st (Capture reply cr pr) = Inr (st', effs)"
  shows "hd effs = GetImage (cap_pix st) (clamp_dim (Width (cap_buf st)) (cap_width st))
           (clamp_dim (Height (cap_buf st)) (cap_height st))
           (word_of_int (PageOffset (cap_buf st) (cap_i st)))"
  using assms by (auto simp: capture_iter_def Let_def split: if_splits sum.splits prod.splits)

lemma fetch_bounds:
  assumes inv: "capture_inv st"
  defines "buf \<equiv> cap_buf st"
  defines "w \<equiv> clamp_dim (Width buf) (cap_width st)" and "h \<equiv> clamp_dim (Height buf) (cap_height st)"
  shows "uint w = min (uint (cap_width st)) (Width buf)"
    and "uint h = min (uint (cap_height st)) (Height buf)"
    and "uint w * uint h * 4 \<le> PageSize buf"
    and "PageSize buf < 2 ^ 32 \<Longrightarrow>
           uint (word_of_int (PageOffset buf (cap_i st)) :: 32 word) = PageOffset buf (cap_i st)"
    and "0 \<le> PageOffset buf (cap_i st)"
    and "PageOffset buf (cap_i st) + PageSize buf \<le> int (length (Data buf))"
proof -
  from inv have b: "0 \<le> Width buf" "Width buf < 65536" "0 \<le> Height buf" "Height buf < 65536"
    and len: "int (length (Data buf)) = 2 * PageSize buf"
    and i: "cap_i st = 0 \<or> cap_i st = 1"
    by (simp_all add: capture_inv_def buf_def)
  show w: "uint w = min (uint (cap_width st)) (Width buf)"
    unfolding w_def by (rule uint_clamp_dim [OF b(1,2)])
  show h: "uint h = min (uint (cap_height st)) (Height buf)"
    unfolding h_def by (rule uint_clamp_dim [OF b(3,4)])
  have "uint w * uint h \<le> Width buf * Height buf"
    by (rule mult_mono) (simp_all add: w h b)
  then show "uint w * uint h * 4 \<le> PageSize buf"
    by (simp add: PageSize_def bytesPerPixel_def)
  have ps: "0 \<le> PageSize buf" using b by (simp add: PageSize_def bytesPerPixel_def)
  show "0 \<le> PageOffset buf (cap_i st)" using i ps by (auto simp: PageOffset_def)
  show "PageOffset buf (cap_i st) + PageSize buf \<le> int (length (Data buf))"
    using i ps len by (auto simp: PageOffset_def)
  assume "PageSize buf < 2 ^ 32"
  then have "0 \<le> PageOffset buf (cap_i st) \<and> PageOffset buf (cap_i st) < 2 ^ 32"
    using i ps by (auto simp: PageOffset_def)
  then show "uint (word_of_int (PageOffset buf (cap_i st)) :: 32 word) = PageOffset buf (cap_i st)"
    by (simp add: uint_word_of_int)
qed

text \<open>
  Claim C6. In every state that the loop reaches from its start, the width and the
  height of the fetch request are the minimum of the window's and the buffer's, axis by
  axis, and a default-branch iteration that returns has issued that request first, for
  the offset of the current page. The requested \<open>fetchW * fetchH * 4\<close> bytes fit into one
  page, and the page lies within the segment; the offset travels as a \<open>uint32\<close> and is
  the page's offset as long as a page has fewer than \<open>2 ^ 32\<close> bytes. The last conjunct
  is the 1000 x 800 window on the 800 x 600 buffer: the request is for 800 x 600 and ends
  within the page.
\<close>

theorem fetch_clamped_to_page:
  assumes start: "capture_start width0 height0 shm pix0 = Inr st0"
    and run: "capture_run st0 inps = Inr (st, effs0)"
  defines "buf \<equiv> cap_buf st"
  defines "w \<equiv> clamp_dim (Width buf) (cap_width st)" and "h \<equiv> clamp_dim (Height buf) (cap_height st)"
  shows "uint w = min (uint (cap_width st)) (Width buf) \<and>
         uint h = min (uint (cap_height st)) (Height buf) \<and>
         (\<forall>reply cursor_reply pos_reply st' effs.
            capture_iter st (Capture reply cursor_reply pos_reply) = Inr (st', effs) \<longrightarrow>
            hd effs = GetImage (cap_pix st) w h (word_of_int (PageOffset buf (cap_i st)))) \<and>
         uint w * uint h * 4 \<le> PageSize buf \<and>
         0 \<le> PageOffset buf (cap_i st) \<and>
         PageOffset buf (cap_i st) + uint w * uint h * 4 \<le> PageOffset buf (cap_i st) + PageSize buf \<and>
         PageOffset buf (cap_i st) + PageSize buf \<le> int (length (Data buf)) \<and>
         (PageSize buf < 2 ^ 32 \<longrightarrow>
            uint (word_of_int (PageOffset buf (cap_i st)) :: 32 word) = PageOffset buf (cap_i st)) \<and>
         (Width buf = 800 \<and> Height buf = 600 \<and> cap_width st = 1000 \<and> cap_height st = 800 \<longrightarrow>
            w = 800 \<and> h = 600 \<and>
            uint (word_of_int (PageOffset buf (cap_i st)) :: 32 word) + 800 * 600 * 4
              \<le> PageOffset buf (cap_i st) + PageSize buf)"
proof -
  note inv = reachable_inv [OF start run]
  note fb = fetch_bounds [OF inv, folded buf_def, folded w_def h_def]
  have req: "hd effs = GetImage (cap_pix st) w h (word_of_int (PageOffset buf (cap_i st)))"
    if "capture_iter st (Capture reply cr pr) = Inr (st', effs)" for reply cr pr st' effs
    using capture_iter_request [OF that] by (simp add: w_def h_def buf_def)
  have ex: "w = 800 \<and> h = 600 \<and>
            uint (word_of_int (PageOffset buf (cap_i st)) :: 32 word) + 800 * 600 * 4
              \<le> PageOffset buf (cap_i st) + PageSize buf"
    if e: "Width buf = 800 \<and> Height buf = 600 \<and> cap_width st = 1000 \<and> cap_height st = 800"
  proof -
    from e have "w = 800" "h = 600" by (simp_all add: w_def h_def clamp_dim_def)
    moreover from e have ps: "PageSize buf = 800 * 600 * 4" by (simp add: PageSize_def bytesPerPixel_def)
    then have "PageSize buf < 2 ^ 32" by simp
    from fb(4) [OF this] ps have "uint (word_of_int (PageOffset buf (cap_i st)) :: 32 word) + 800 * 600 * 4
              \<le> PageOffset buf (cap_i st) + PageSize buf" by simp
    ultimately show ?thesis by simp
  qed
  show ?thesis using fb(1,2,3,5,6) fb(4) req ex by (intro conjI allI impI) auto
qed


theorem fetch_clamped_to_page_witness:
  "capture_start 2 2 (Some 7) 5 =
     Inr \<lparr>cap_buf = \<lparr>Width = 2, Height = 2, Pages = 2, Data = replicate 32 0, ShmID = 7\<rparr>,
          cap_width = 2, cap_height = 2, cap_i = 0, cap_pix = 5, cap_scratch = replicate 16 0\<rparr> \<and>
   capture_run
     \<lparr>cap_buf = \<lparr>Width = 2, Height = 2, Pages = 2, Data = replicate 32 0, ShmID = 7\<rparr>,
      cap_width = 2, cap_height = 2, cap_i = 0, cap_pix = 5, cap_scratch = replicate 16 0\<rparr>
     [ConfigureNotify 3 1 (Some 6)] =
     Inr (\<lparr>cap_buf = \<lparr>Width = 2, Height = 2, Pages = 2, Data = replicate 32 0, ShmID = 7\<rparr>,
           cap_width = 3, cap_height = 1, cap_i = 0, cap_pix = 6, cap_scratch = replicate 16 0\<rparr>,
          [FreePixmap 5, NameWindowPixmap 6]) \<and>
   uint (clamp_dim 2 (3 :: 16 word)) = min (uint (3 :: 16 word)) 2 \<and>
   uint (clamp_dim 2 (1 :: 16 word)) = min (uint (1 :: 16 word)) 2 \<and>
   clamp_dim 2 (3 :: 16 word) = 2 \<and> clamp_dim 2 (1 :: 16 word) = 1"
proof -
  let ?buf = "\<lparr>Width = 2, Height = 2, Pages = 2, Data = replicate 32 0, ShmID = 7\<rparr>"
  let ?init = "\<lparr>cap_buf = ?buf, cap_width = 2, cap_height = 2, cap_i = 0, cap_pix = 5,
               cap_scratch = replicate 16 0\<rparr>"
  let ?resized = "\<lparr>cap_buf = ?buf, cap_width = 3, cap_height = 1, cap_i = 0, cap_pix = 6,
               cap_scratch = replicate 16 0\<rparr>"
  have start: "capture_start 2 2 (Some 7) 5 = Inr ?init"
    by (simp add: capture_start_def NewBuffer_def PageSize_def bytesPerPixel_def)
  have run: "capture_run ?init [ConfigureNotify 3 1 (Some 6)] = Inr (?resized, [FreePixmap 5, NameWindowPixmap 6])"
    by (simp add: capture_iter_def)
  have c: "clamp_dim 2 (3 :: 16 word) = 2" "clamp_dim 2 (1 :: 16 word) = 1"
    by (simp_all add: clamp_dim_def)
  from fetch_clamped_to_page [OF start run]
  show ?thesis using start run c by simp
qed

subsection \<open>A failed fetch\<close>

text \<open>
  Claim C7. An iteration whose image fetch fails returns (the loop goes on): its effects
  are the request and the log line, nothing is sent to the Pacer, the page index, the
  scratch buffer and the window size are as before, and the segment holds what the
  server stored, the loop itself writes nothing (the result does not depend on the
  cursor replies). The next iteration therefore starts from the same page slot: same
  offset, same page; the run continues from that state.
\<close>

theorem fetch_failure_retries:
  fixes st :: capture_state and reply :: GetImage_reply
  assumes err: "reply_err reply"
  defines "request \<equiv> GetImage (cap_pix st) (clamp_dim (Width (cap_buf st)) (cap_width st))
                       (clamp_dim (Height (cap_buf st)) (cap_height st))
                       (word_of_int (PageOffset (cap_buf st) (cap_i st)))"
    and "st1 \<equiv> st\<lparr>cap_buf := (cap_buf st)\<lparr>Data :=
                   store_bytes (Data (cap_buf st))
                     (unat (word_of_int (PageOffset (cap_buf st) (cap_i st)) :: 32 word))
                     (stored reply)\<rparr>\<rparr>"
  shows "capture_iter st (Capture reply cursor_reply pos_reply) = Inr (st1, [request, Println]) \<and>
         (\<forall>pg. Send pg \<notin> set [request, Println]) \<and>
         cap_i st1 = cap_i st \<and>
         cap_scratch st1 = cap_scratch st \<and>
         (stored reply = [] \<longrightarrow> st1 = st) \<and>
         PageOffset (cap_buf st1) (cap_i st1) = PageOffset (cap_buf st) (cap_i st) \<and>
         Page (cap_buf st1) (cap_i st1) = Page (cap_buf st) (cap_i st) \<and>
         capture_run st (Capture reply cursor_reply pos_reply # inps) =
           (case capture_run st1 inps of
              Inl e \<Rightarrow> Inl e
            | Inr (st2, effs2) \<Rightarrow> Inr (st2, [request, Println] @ effs2))"
proof -
  have it: "capture_iter st (Capture reply cursor_reply pos_reply) = Inr (st1, [request, Println])"
    using err by (simp add: capture_iter_def Let_def st1_def request_def)
  have nosend: "\<forall>pg. Send pg \<notin> set [request, Println]" by (simp add: request_def)
  have same: "cap_i st1 = cap_i st" "cap_scratch st1 = cap_scratch st" by (simp_all add: st1_def)
  have empty: "st1 = st" if "stored reply = []"
    using that by (simp add: st1_def store_bytes_def)
  have off: "PageOffset (cap_buf st1) (cap_i st1) = PageOffset (cap_buf st) (cap_i st)"
    by (simp add: st1_def PageOffset_def PageSize_def)
  have pg: "Page (cap_buf st1) (cap_i st1) = Page (cap_buf st) (cap_i st)"
    by (simp add: st1_def Page_def PageOffset_def PageSize_def)
  have run: "capture_run st (Capture reply cursor_reply pos_reply # inps) =
           (case capture_run st1 inps of
              Inl e \<Rightarrow> Inl e
            | Inr (st2, effs2) \<Rightarrow> Inr (st2, [request, Println] @ effs2))"
    by (simp add: it)
  show ?thesis using it nosend same empty off pg run by (intro conjI) auto
qed


theorem fetch_failure_retries_witness:
  "reply_err \<lparr>reply_err = True, stored = []\<rparr> \<and>
   capture_iter
     \<lparr>cap_buf = \<lparr>Width = 2, Height = 2, Pages = 2, Data = replicate 32 0, ShmID = 7\<rparr>,
      cap_width = 2, cap_height = 2, cap_i = 0, cap_pix = 5, cap_scratch = replicate 16 0\<rparr>
     (Capture \<lparr>reply_err = True, stored = []\<rparr> None None) =
     Inr (\<lparr>cap_buf = \<lparr>Width = 2, Height = 2, Pages = 2, Data = replicate 32 0, ShmID = 7\<rparr>,
           cap_width = 2, cap_height = 2, cap_i = 0, cap_pix = 5, cap_scratch = replicate 16 0\<rparr>,
          [GetImage 5 2 2 0, Println]) \<and>
   capture_run
     \<lparr>cap_buf = \<lparr>Width = 2, Height = 2, Pages = 2, Data = replicate 32 0, ShmID = 7\<rparr>,
      cap_width = 2, cap_height = 2, cap_i = 0, cap_pix = 5, cap_scratch = replicate 16 0\<rparr>
     [Capture \<lparr>reply_err = True, stored = []\<rparr> None None,
      Capture \<lparr>reply_err = False,
               stored = [1, 2, 3, 4, 5, 6, 7, 8, 9, 10, 11, 12, 13, 14, 15, 16]\<rparr> None None] =
     Inr (\<lparr>cap_buf = \<lparr>Width = 2, Height = 2, Pages = 2,
                      Data = [1, 2, 3, 4, 5, 6, 7, 8, 9, 10, 11, 12, 13, 14, 15, 16] @ replicate 16 0,
                      ShmID = 7\<rparr>,
           cap_width = 2, cap_height = 2, cap_i = 1, cap_pix = 5, cap_scratch = replicate 16 0\<rparr>,
          [GetImage 5 2 2 0, Println, GetImage 5 2 2 0, Send (0, 16)])"
proof -
  let ?init = "\<lparr>cap_buf = \<lparr>Width = 2, Height = 2, Pages = 2, Data = replicate 32 0, ShmID = 7\<rparr>,
      cap_width = 2, cap_height = 2, cap_i = 0, cap_pix = 5, cap_scratch = replicate 16 0\<rparr>"
  let ?failed = "\<lparr>reply_err = True, stored = []\<rparr>"
  let ?ok = "\<lparr>reply_err = False, stored = [1, 2, 3, 4, 5, 6, 7, 8, 9, 10, 11, 12, 13, 14, 15, 16]\<rparr>"
  have err: "reply_err ?failed" by simp
  have after: "capture_run ?init [Capture ?ok None None] =
     Inr (\<lparr>cap_buf = \<lparr>Width = 2, Height = 2, Pages = 2,
                      Data = [1, 2, 3, 4, 5, 6, 7, 8, 9, 10, 11, 12, 13, 14, 15, 16] @ replicate 16 0,
                      ShmID = 7\<rparr>,
           cap_width = 2, cap_height = 2, cap_i = 1, cap_pix = 5, cap_scratch = replicate 16 0\<rparr>,
          [GetImage 5 2 2 0, Send (0, 16)])"
    by code_simp
  have same: "?init\<lparr>cap_buf := (cap_buf ?init)\<lparr>Data :=
                   store_bytes (Data (cap_buf ?init))
                     (unat (word_of_int (PageOffset (cap_buf ?init) (cap_i ?init)) :: 32 word))
                     (stored ?failed)\<rparr>\<rparr> = ?init"
    by (simp add: store_bytes_def PageOffset_def)
  have req: "GetImage (cap_pix ?init) (clamp_dim (Width (cap_buf ?init)) (cap_width ?init))
                       (clamp_dim (Height (cap_buf ?init)) (cap_height ?init))
                       (word_of_int (PageOffset (cap_buf ?init) (cap_i ?init))) = GetImage 5 2 2 0"
    by (simp add: clamp_dim_def PageOffset_def)
  note retry = fetch_failure_retries [OF err, of ?init None None "[Capture ?ok None None]",
      unfolded same req]
  from retry have it: "capture_iter ?init (Capture ?failed None None) =
      Inr (?init, [GetImage 5 2 2 0, Println])"
    by (rule conjunct1)
  from retry have "capture_run ?init [Capture ?failed None None, Capture ?ok None None] =
      (case capture_run ?init [Capture ?ok None None] of
         Inl e \<Rightarrow> Inl e
       | Inr (st2, effs2) \<Rightarrow> Inr (st2, [GetImage 5 2 2 0, Println] @ effs2))"
    by blast
  then have run: "capture_run ?init [Capture ?failed None None, Capture ?ok None None] =
     Inr (\<lparr>cap_buf = \<lparr>Width = 2, Height = 2, Pages = 2,
                      Data = [1, 2, 3, 4, 5, 6, 7, 8, 9, 10, 11, 12, 13, 14, 15, 16] @ replicate 16 0,
                      ShmID = 7\<rparr>,
           cap_width = 2, cap_height = 2, cap_i = 1, cap_pix = 5, cap_scratch = replicate 16 0\<rparr>,
          [GetImage 5 2 2 0, Println, GetImage 5 2 2 0, Send (0, 16)])"
    by (simp only: after sum.case prod.case append.simps)
  show ?thesis using err it run by (intro conjI)
qed

section \<open>Properties of the Pacer\<close>

lemma go_int_id: "- (2 ^ 63) \<le> x \<Longrightarrow> x < 2 ^ 63 \<Longrightarrow> go_int x = x"
  by (simp add: go_int_def)

lemma sendFrame_Inr:
  assumes "sendFrame fps mem sink_err b st = Inr st'"
  shows "\<exists>d. frame_interval fps = Inr d \<and>
           st' = st\<lparr>idx := go_int (idx st + 1),
                    prevFrame := (case b of None \<Rightarrow> prevFrame st | Some s \<Rightarrow> Some s),
                    emitted := emitted st @
                      [\<lparr>Timecode = word_of_int (go_int (go_int (idx st + 1) * d)), Position = 0,
                        SimpleBlock = [129, 0, 0, 128] @
                          (case (case b of None \<Rightarrow> prevFrame st | Some s \<Rightarrow> Some s) of
                             None \<Rightarrow> [] | Some s \<Rightarrow> slice_bytes mem s)\<rparr>]\<rparr>"
  using assms by (auto simp: sendFrame_def Let_def split: sum.splits if_splits)

lemma pacer_tick_Inr:
  assumes "pacer_tick fps t st = Inr st'"
  shows "\<exists>d. frame_interval fps = Inr d \<and>
           idx st' = go_int (idx st + 1) \<and>
           prevFrame st' = (case tick_avail t of None \<Rightarrow> prevFrame st | Some s \<Rightarrow> Some s) \<and>
           dropped st' = (case tick_avail t of None \<Rightarrow> go_int (dropped st + 1) | Some s \<Rightarrow> dropped st) \<and>
           emitted st' = emitted st @
             [\<lparr>Timecode = word_of_int (go_int (go_int (idx st + 1) * d)), Position = 0,
               SimpleBlock = [129, 0, 0, 128] @
                 (case tick_avail t of
                    Some s \<Rightarrow> slice_bytes (tick_mem t) s
                  | None \<Rightarrow> (case prevFrame st of None \<Rightarrow> [] | Some s \<Rightarrow> slice_bytes (tick_mem t) s))\<rparr>]"
proof (cases "tick_avail t")
  case None
  with assms have "sendFrame fps (tick_mem t) (tick_sink_err t) None (st\<lparr>dropped := go_int (dropped st + 1)\<rparr>) = Inr st'"
    by (simp add: pacer_tick_def)
  from sendFrame_Inr [OF this] None show ?thesis by auto
next
  case (Some s)
  with assms have "sendFrame fps (tick_mem t) (tick_sink_err t) (Some s) st = Inr st'"
    by (simp add: pacer_tick_def)
  from sendFrame_Inr [OF this] Some show ?thesis by auto
qed


lemma pacer_ticks_char:
  assumes "pacer_ticks fps ts st = Inr st'" and "frame_interval fps = Inr d"
    and "- 1 \<le> idx st" and "idx st + int (length ts) < 2 ^ 63"
    and "0 \<le> dropped st" and "dropped st + int (length ts) < 2 ^ 63"
  shows "idx st' = idx st + int (length ts) \<and>
         dropped st' = dropped st + int (no_frame ts) \<and>
         length (emitted st') = length (emitted st) + length ts \<and>
         (\<forall>k<length (emitted st). emitted st' ! k = emitted st ! k) \<and>
         (\<forall>k<length ts. Timecode (emitted st' ! (length (emitted st) + k)) =
                          word_of_int (go_int ((idx st + 1 + int k) * d)))"
  using assms
proof (induction ts arbitrary: st)
  case Nil
  then show ?case by simp
next
  case (Cons t ts)
  from Cons.prems(1) obtain st1 where t: "pacer_tick fps t st = Inr st1"
    and r: "pacer_ticks fps ts st1 = Inr st'"
    by (auto split: sum.splits)
  from pacer_tick_Inr [OF t] Cons.prems(2) have
    i1: "idx st1 = go_int (idx st + 1)"
    and d1: "dropped st1 = (case tick_avail t of None \<Rightarrow> go_int (dropped st + 1) | Some s \<Rightarrow> dropped st)"
    and e1: "emitted st1 = emitted st @
             [\<lparr>Timecode = word_of_int (go_int (go_int (idx st + 1) * d)), Position = 0,
               SimpleBlock = [129, 0, 0, 128] @
                 (case tick_avail t of
                    Some s \<Rightarrow> slice_bytes (tick_mem t) s
                  | None \<Rightarrow> (case prevFrame st of None \<Rightarrow> [] | Some s \<Rightarrow> slice_bytes (tick_mem t) s))\<rparr>]"
    by auto
  have gi: "go_int (idx st + 1) = idx st + 1"
    using Cons.prems(3,4) by (intro go_int_id) auto
  have gd: "go_int (dropped st + 1) = dropped st + 1"
    using Cons.prems(5,6) by (intro go_int_id) auto
  have i1': "idx st1 = idx st + 1" using i1 gi by simp
  have d1': "dropped st1 = dropped st + int (no_frame [t])"
    using d1 gd by (simp split: option.splits)
  have dle: "dropped st1 \<le> dropped st + 1" using d1' by simp
  from Cons.IH [OF r Cons.prems(2)] i1' d1' dle Cons.prems(3-6)
  have IH: "idx st' = idx st1 + int (length ts)"
    "dropped st' = dropped st1 + int (no_frame ts)"
    "length (emitted st') = length (emitted st1) + length ts"
    "\<forall>k<length (emitted st1). emitted st' ! k = emitted st1 ! k"
    "\<forall>k<length ts. Timecode (emitted st' ! (length (emitted st1) + k)) =
                          word_of_int (go_int ((idx st1 + 1 + int k) * d))"
    by auto
  have a: "idx st' = idx st + int (length (t # ts))" using IH(1) i1' by simp
  have b: "dropped st' = dropped st + int (no_frame (t # ts))" using IH(2) d1' by simp
  have c: "length (emitted st') = length (emitted st) + length (t # ts)" using IH(3) e1 by simp
  have old: "emitted st' ! k = emitted st ! k" if "k < length (emitted st)" for k
    using IH(4) [rule_format, of k] that e1 by (simp add: nth_append)
  have new: "Timecode (emitted st' ! (length (emitted st) + k)) =
                          word_of_int (go_int ((idx st + 1 + int k) * d))" if "k < length (t # ts)" for k
  proof (cases k)
    case 0
    have "emitted st' ! length (emitted st) = emitted st1 ! length (emitted st)"
      using IH(4) [rule_format, of "length (emitted st)"] e1 by simp
    then show ?thesis using 0 e1 gi by simp
  next
    case (Suc k')
    then have "k' < length ts" using that by simp
    from IH(5) [rule_format, OF this] show ?thesis
      using Suc e1 i1' by (simp add: add.assoc add.commute add.left_commute)
  qed
  show ?case using a b c old new by blast
qed

lemma pacer_run_Inr:
  assumes "pacer_run fps ts = Inr fin"
  shows "\<exists>d. frame_interval fps = Inr d \<and> 0 < d \<and> d = 1000000000 div sint fps \<and>
             pacer_ticks fps ts pacer_init = Inr fin"
proof -
  from assms obtain d where d: "frame_interval fps = Inr d" "0 < d"
    and r: "pacer_ticks fps ts pacer_init = Inr fin"
    by (auto simp: pacer_run_def split: sum.splits if_splits)
  from d have nz: "sint fps \<noteq> 0" and dd: "d = sgn (sint fps) * (1000000000 div \<bar>sint fps\<bar>)"
    by (auto simp: frame_interval_def split: if_splits)
  have "0 < sint fps"
  proof (rule ccontr)
    assume "\<not> 0 < sint fps"
    with nz have "sint fps < 0" by simp
    then have "d \<le> 0" unfolding dd by (simp add: sgn_if div_int_pos_iff)
    with d(2) show False by simp
  qed
  then have "d = 1000000000 div sint fps" unfolding dd by simp
  with d r show ?thesis by blast
qed

subsection \<open>One cluster per tick\<close>

text \<open>
  Claim C1. A tick that the Pacer survives (the Sink reports no error) appends exactly
  one cluster to what the Sink has received, and \<open>idx\<close> grows by one. With a page
  received from the handoff, the block is the four header bytes followed by the bytes
  of that page, the page is the remembered frame, and \<open>dropped\<close> is unchanged. With no
  page, \<open>dropped\<close> grows by one and the block carries the bytes of the remembered frame,
  read from the segment at that tick (none when nothing is remembered yet). Hence a run
  of \<open>n\<close> ticks emits \<open>n\<close> clusters, ends with \<open>idx = n - 1\<close>, and ends with \<open>dropped\<close> equal
  to the number of its ticks with no page. The counters are 64-bit: the statement is
  for counters that do not wrap, that is for runs of fewer than \<open>2 ^ 63\<close> ticks.
\<close>

theorem pacer_one_frame_per_tick:
  "(pacer_tick fps t st = Inr st' \<and> - 1 \<le> idx st \<and> idx st + 1 < 2 ^ 63 \<and>
    0 \<le> dropped st \<and> dropped st + 1 < 2 ^ 63 \<longrightarrow>
      (\<exists>c. emitted st' = emitted st @ [c] \<and>
           SimpleBlock c = [129, 0, 0, 128] @
             (case tick_avail t of
                Some s \<Rightarrow> slice_bytes (tick_mem t) s
              | None \<Rightarrow> (case prevFrame st of None \<Rightarrow> [] | Some s \<Rightarrow> slice_bytes (tick_mem t) s))) \<and>
      idx st' = idx st + 1 \<and>
      (\<forall>s. tick_avail t = Some s \<longrightarrow> prevFrame st' = Some s \<and> dropped st' = dropped st) \<and>
      (tick_avail t = None \<longrightarrow> prevFrame st' = prevFrame st \<and> dropped st' = dropped st + 1)) \<and>
   (pacer_run fps ts = Inr fin \<and> int (length ts) < 2 ^ 63 \<longrightarrow>
      length (emitted fin) = length ts \<and>
      idx fin = int (length ts) - 1 \<and>
      dropped fin = int (no_frame ts))"
proof (intro conjI impI)
  assume a: "pacer_tick fps t st = Inr st' \<and> - 1 \<le> idx st \<and> idx st + 1 < 2 ^ 63 \<and>
    0 \<le> dropped st \<and> dropped st + 1 < 2 ^ 63"
  then have gi: "go_int (idx st + 1) = idx st + 1" by (intro go_int_id) auto
  from a have gd: "go_int (dropped st + 1) = dropped st + 1" by (intro go_int_id) auto
  from a pacer_tick_Inr [of fps t st st'] obtain d where
    i: "idx st' = go_int (idx st + 1)"
    and p: "prevFrame st' = (case tick_avail t of None \<Rightarrow> prevFrame st | Some s \<Rightarrow> Some s)"
    and dr: "dropped st' = (case tick_avail t of None \<Rightarrow> go_int (dropped st + 1) | Some s \<Rightarrow> dropped st)"
    and e: "emitted st' = emitted st @
             [\<lparr>Timecode = word_of_int (go_int (go_int (idx st + 1) * d)), Position = 0,
               SimpleBlock = [129, 0, 0, 128] @
                 (case tick_avail t of
                    Some s \<Rightarrow> slice_bytes (tick_mem t) s
                  | None \<Rightarrow> (case prevFrame st of None \<Rightarrow> [] | Some s \<Rightarrow> slice_bytes (tick_mem t) s))\<rparr>]"
    by blast
  show "\<exists>c. emitted st' = emitted st @ [c] \<and>
           SimpleBlock c = [129, 0, 0, 128] @
             (case tick_avail t of
                Some s \<Rightarrow> slice_bytes (tick_mem t) s
              | None \<Rightarrow> (case prevFrame st of None \<Rightarrow> [] | Some s \<Rightarrow> slice_bytes (tick_mem t) s))"
    using e by simp
  show "idx st' = idx st + 1" using i gi by simp
  show "\<forall>s. tick_avail t = Some s \<longrightarrow> prevFrame st' = Some s \<and> dropped st' = dropped st"
    using p dr by simp
  show "prevFrame st' = prevFrame st" if "tick_avail t = None" using p that by simp
  show "dropped st' = dropped st + 1" if "tick_avail t = None" using dr gd that by simp
next
  assume a: "pacer_run fps ts = Inr fin \<and> int (length ts) < 2 ^ 63"
  with pacer_run_Inr [of fps ts fin] obtain d where d: "frame_interval fps = Inr d"
    and r: "pacer_ticks fps ts pacer_init = Inr fin" by blast
  from pacer_ticks_char [OF r d] a
  have c: "idx fin = idx pacer_init + int (length ts)"
      "dropped fin = dropped pacer_init + int (no_frame ts)"
      "length (emitted fin) = length (emitted pacer_init) + length ts"
    by (simp_all add: pacer_init_def)
  show "length (emitted fin) = length ts" using c(3) by (simp add: pacer_init_def)
  show "idx fin = int (length ts) - 1" using c(1) by (simp add: pacer_init_def)
  show "dropped fin = int (no_frame ts)" using c(2) by (simp add: pacer_init_def)
qed

theorem pacer_one_frame_per_tick_witness:
  "pacer_tick 60 \<lparr>tick_mem = [1, 2, 3, 4, 9, 9, 9, 9], tick_avail = None, tick_sink_err = False\<rparr>
     \<lparr>idx = 1, prevFrame = Some (0, 4), dropped = 1,
        emitted = [\<lparr>Timecode = 0, Position = 0, SimpleBlock = [129, 0, 0, 128]\<rparr>,
                   \<lparr>Timecode = 16666666, Position = 0, SimpleBlock = [129, 0, 0, 128, 1, 2, 3, 4]\<rparr>]\<rparr> =
   Inr \<lparr>idx = 2, prevFrame = Some (0, 4), dropped = 2,
        emitted = [\<lparr>Timecode = 0, Position = 0, SimpleBlock = [129, 0, 0, 128]\<rparr>,
                   \<lparr>Timecode = 16666666, Position = 0, SimpleBlock = [129, 0, 0, 128, 1, 2, 3, 4]\<rparr>,
                   \<lparr>Timecode = 33333332, Position = 0, SimpleBlock = [129, 0, 0, 128, 1, 2, 3, 4]\<rparr>]\<rparr> \<and>
   pacer_run 60
     [\<lparr>tick_mem = [1, 2, 3, 4, 5, 6, 7, 8], tick_avail = None, tick_sink_err = False\<rparr>,
      \<lparr>tick_mem = [1, 2, 3, 4, 5, 6, 7, 8], tick_avail = Some (0, 4), tick_sink_err = False\<rparr>,
      \<lparr>tick_mem = [1, 2, 3, 4, 9, 9, 9, 9], tick_avail = None, tick_sink_err = False\<rparr>] =
   Inr \<lparr>idx = 2, prevFrame = Some (0, 4), dropped = 2,
        emitted = [\<lparr>Timecode = 0, Position = 0, SimpleBlock = [129, 0, 0, 128]\<rparr>,
                   \<lparr>Timecode = 16666666, Position = 0, SimpleBlock = [129, 0, 0, 128, 1, 2, 3, 4]\<rparr>,
                   \<lparr>Timecode = 33333332, Position = 0, SimpleBlock = [129, 0, 0, 128, 1, 2, 3, 4]\<rparr>]\<rparr> \<and>
   tick_avail \<lparr>tick_mem = [1, 2, 3, 4, 9, 9, 9, 9], tick_avail = None, tick_sink_err = False\<rparr> = None \<and>
   no_frame [\<lparr>tick_mem = [1, 2, 3, 4, 5, 6, 7, 8], tick_avail = None, tick_sink_err = False\<rparr>,
             \<lparr>tick_mem = [1, 2, 3, 4, 5, 6, 7, 8], tick_avail = Some (0, 4), tick_sink_err = False\<rparr>,
             \<lparr>tick_mem = [1, 2, 3, 4, 9, 9, 9, 9], tick_avail = None, tick_sink_err = False\<rparr>] = 2 \<and>
   idx \<lparr>idx = 2, prevFrame = Some (0, 4), dropped = 2,
        emitted = [\<lparr>Timecode = 0, Position = 0, SimpleBlock = [129, 0, 0, 128]\<rparr>,
                   \<lparr>Timecode = 16666666, Position = 0, SimpleBlock = [129, 0, 0, 128, 1, 2, 3, 4]\<rparr>,
                   \<lparr>Timecode = 33333332, Position = 0, SimpleBlock = [129, 0, 0, 128, 1, 2, 3, 4]\<rparr>]\<rparr> = idx \<lparr>idx = 1, prevFrame = Some (0, 4), dropped = 1,
        emitted = [\<lparr>Timecode = 0, Position = 0, SimpleBlock = [129, 0, 0, 128]\<rparr>,
                   \<lparr>Timecode = 16666666, Position = 0, SimpleBlock = [129, 0, 0, 128, 1, 2, 3, 4]\<rparr>]\<rparr> + 1 \<and>
   dropped \<lparr>idx = 2, prevFrame = Some (0, 4), dropped = 2,
        emitted = [\<lparr>Timecode = 0, Position = 0, SimpleBlock = [129, 0, 0, 128]\<rparr>,
                   \<lparr>Timecode = 16666666, Position = 0, SimpleBlock = [129, 0, 0, 128, 1, 2, 3, 4]\<rparr>,
                   \<lparr>Timecode = 33333332, Position = 0, SimpleBlock = [129, 0, 0, 128, 1, 2, 3, 4]\<rparr>]\<rparr> = dropped \<lparr>idx = 1, prevFrame = Some (0, 4), dropped = 1,
        emitted = [\<lparr>Timecode = 0, Position = 0, SimpleBlock = [129, 0, 0, 128]\<rparr>,
                   \<lparr>Timecode = 16666666, Position = 0, SimpleBlock = [129, 0, 0, 128, 1, 2, 3, 4]\<rparr>]\<rparr> + 1"
proof -
  let ?t1 = "\<lparr>tick_mem = [1, 2, 3, 4, 5, 6, 7, 8], tick_avail = None, tick_sink_err = False\<rparr>"
  let ?t2 = "\<lparr>tick_mem = [1, 2, 3, 4, 5, 6, 7, 8], tick_avail = Some (0, 4), tick_sink_err = False\<rparr>"
  let ?t3 = "\<lparr>tick_mem = [1, 2, 3, 4, 9, 9, 9, 9], tick_avail = None, tick_sink_err = False\<rparr>"
  let ?mid = "\<lparr>idx = 1, prevFrame = Some (0, 4), dropped = 1,
        emitted = [\<lparr>Timecode = 0, Position = 0, SimpleBlock = [129, 0, 0, 128]\<rparr>,
                   \<lparr>Timecode = 16666666, Position = 0, SimpleBlock = [129, 0, 0, 128, 1, 2, 3, 4]\<rparr>]\<rparr>"
  let ?fin = "\<lparr>idx = 2, prevFrame = Some (0, 4), dropped = 2,
        emitted = [\<lparr>Timecode = 0, Position = 0, SimpleBlock = [129, 0, 0, 128]\<rparr>,
                   \<lparr>Timecode = 16666666, Position = 0, SimpleBlock = [129, 0, 0, 128, 1, 2, 3, 4]\<rparr>,
                   \<lparr>Timecode = 33333332, Position = 0, SimpleBlock = [129, 0, 0, 128, 1, 2, 3, 4]\<rparr>]\<rparr>"
  have tick: "pacer_tick 60 ?t3 ?mid = Inr ?fin"
    by (simp add: pacer_tick_def sendFrame_def frame_interval_def go_int_def Let_def slice_bytes_def)
  have run: "pacer_run 60 [?t1, ?t2, ?t3] = Inr ?fin"
    by (simp add: pacer_run_def pacer_tick_def sendFrame_def frame_interval_def pacer_init_def
        go_int_def Let_def slice_bytes_def)
  have range: "- 1 \<le> idx ?mid \<and> idx ?mid + 1 < 2 ^ 63 \<and> 0 \<le> dropped ?mid \<and> dropped ?mid + 1 < 2 ^ 63"
    by simp
  have len: "int (length [?t1, ?t2, ?t3]) < 2 ^ 63" by simp
  from pacer_one_frame_per_tick [of 60 ?t3 ?mid ?fin "[?t1, ?t2, ?t3]" ?fin]
  show ?thesis using tick run range len by simp
qed

subsection \<open>Timecodes\<close>

text \<open>
  Claim C9. In a run of the Pacer the frame interval is \<open>d = 1000000000 div fps\<close>
  nanoseconds and is positive; the \<open>k\<close>-th cluster emitted (from 0) has the timecode
  \<open>k * d\<close>, and the timecodes are strictly increasing along the run, whatever the
  blocks carry. The product of line 215 is a 64-bit \<open>int\<close>: the statement is for runs
  whose last timecode does not wrap, \<open>n * d < 2 ^ 63\<close> nanoseconds for \<open>n\<close> ticks.
\<close>

theorem timecodes_strictly_increasing:
  assumes run: "pacer_run fps ts = Inr fin"
    and d: "frame_interval fps = Inr d"
    and bound: "int (length ts) * d < 2 ^ 63"
  shows "0 < d \<and> d = 1000000000 div sint fps \<and>
         length (emitted fin) = length ts \<and>
         (\<forall>k<length ts. uint (Timecode (emitted fin ! k)) = int k * d) \<and>
         (\<forall>j k. j < k \<and> k < length ts \<longrightarrow>
            Timecode (emitted fin ! j) < Timecode (emitted fin ! k))"
proof -
  from pacer_run_Inr [OF run] d have pos: "0 < d" and dv: "d = 1000000000 div sint fps"
    and r: "pacer_ticks fps ts pacer_init = Inr fin" by auto
  have "int (length ts) * 1 \<le> int (length ts) * d" using pos by (intro mult_left_mono) auto
  then have n: "int (length ts) < 2 ^ 63" using bound by simp
  from pacer_ticks_char [OF r d] n
  have len: "length (emitted fin) = length ts"
    and tc: "\<And>k. k < length ts \<Longrightarrow>
               Timecode (emitted fin ! k) = word_of_int (go_int (int k * d))"
    by (simp_all add: pacer_init_def)
  have val: "uint (Timecode (emitted fin ! k)) = int k * d" if "k < length ts" for k
  proof -
    have "int k * d \<le> int (length ts) * d" using that pos by (intro mult_right_mono) auto
    then have hi: "int k * d < 2 ^ 63" using bound by simp
    have lo: "0 \<le> int k * d" using pos by simp
    have "go_int (int k * d) = int k * d" using lo hi by (intro go_int_id) auto
    moreover have "uint (word_of_int (int k * d) :: 64 word) = int k * d"
      unfolding uint_word_of_int using lo hi by simp
    ultimately show ?thesis using tc [OF that] by (simp only:)
  qed
  have inc: "Timecode (emitted fin ! j) < Timecode (emitted fin ! k)"
    if "j < k \<and> k < length ts" for j k
  proof -
    have "int j * d < int k * d" using that pos by (intro mult_strict_right_mono) auto
    then have "uint (Timecode (emitted fin ! j)) < uint (Timecode (emitted fin ! k))"
      using val [of j] val [of k] that by simp
    then show ?thesis by (simp add: word_less_def)
  qed
  show ?thesis using pos dv len val inc by blast
qed

theorem timecodes_strictly_increasing_witness:
  "pacer_run 60
     [\<lparr>tick_mem = [1, 2, 3, 4, 5, 6, 7, 8], tick_avail = None, tick_sink_err = False\<rparr>,
      \<lparr>tick_mem = [1, 2, 3, 4, 5, 6, 7, 8], tick_avail = Some (0, 4), tick_sink_err = False\<rparr>,
      \<lparr>tick_mem = [1, 2, 3, 4, 9, 9, 9, 9], tick_avail = None, tick_sink_err = False\<rparr>] =
   Inr \<lparr>idx = 2, prevFrame = Some (0, 4), dropped = 2,
        emitted = [\<lparr>Timecode = 0, Position = 0, SimpleBlock = [129, 0, 0, 128]\<rparr>,
                   \<lparr>Timecode = 16666666, Position = 0, SimpleBlock = [129, 0, 0, 128, 1, 2, 3, 4]\<rparr>,
                   \<lparr>Timecode = 33333332, Position = 0, SimpleBlock = [129, 0, 0, 128, 1, 2, 3, 4]\<rparr>]\<rparr> \<and>
   frame_interval 60 = Inr 16666666 \<and>
   int (length [\<lparr>tick_mem = [1, 2, 3, 4, 5, 6, 7, 8], tick_avail = None, tick_sink_err = False\<rparr>,
                \<lparr>tick_mem = [1, 2, 3, 4, 5, 6, 7, 8], tick_avail = Some (0, 4), tick_sink_err = False\<rparr>,
                \<lparr>tick_mem = [1, 2, 3, 4, 9, 9, 9, 9], tick_avail = None, tick_sink_err = False\<rparr>]) * 16666666 < 2 ^ 63 \<and>
   uint (Timecode (emitted \<lparr>idx = 2, prevFrame = Some (0, 4), dropped = 2,
        emitted = [\<lparr>Timecode = 0, Position = 0, SimpleBlock = [129, 0, 0, 128]\<rparr>,
                   \<lparr>Timecode = 16666666, Position = 0, SimpleBlock = [129, 0, 0, 128, 1, 2, 3, 4]\<rparr>,
                   \<lparr>Timecode = 33333332, Position = 0, SimpleBlock = [129, 0, 0, 128, 1, 2, 3, 4]\<rparr>]\<rparr> ! 2)) = 2 * 16666666 \<and>
   Timecode (emitted \<lparr>idx = 2, prevFrame = Some (0, 4), dropped = 2,
        emitted = [\<lparr>Timecode = 0, Position = 0, SimpleBlock = [129, 0, 0, 128]\<rparr>,
                   \<lparr>Timecode = 16666666, Position = 0, SimpleBlock = [129, 0, 0, 128, 1, 2, 3, 4]\<rparr>,
                   \<lparr>Timecode = 33333332, Position = 0, SimpleBlock = [129, 0, 0, 128, 1, 2, 3, 4]\<rparr>]\<rparr> ! 1) < Timecode (emitted \<lparr>idx = 2, prevFrame = Some (0, 4), dropped = 2,
        emitted = [\<lparr>Timecode = 0, Position = 0, SimpleBlock = [129, 0, 0, 128]\<rparr>,
                   \<lparr>Timecode = 16666666, Position = 0, SimpleBlock = [129, 0, 0, 128, 1, 2, 3, 4]\<rparr>,
                   \<lparr>Timecode = 33333332, Position = 0, SimpleBlock = [129, 0, 0, 128, 1, 2, 3, 4]\<rparr>]\<rparr> ! 2)"
proof -
  let ?t1 = "\<lparr>tick_mem = [1, 2, 3, 4, 5, 6, 7, 8], tick_avail = None, tick_sink_err = False\<rparr>"
  let ?t2 = "\<lparr>tick_mem = [1, 2, 3, 4, 5, 6, 7, 8], tick_avail = Some (0, 4), tick_sink_err = False\<rparr>"
  let ?t3 = "\<lparr>tick_mem = [1, 2, 3, 4, 9, 9, 9, 9], tick_avail = None, tick_sink_err = False\<rparr>"
  let ?fin = "\<lparr>idx = 2, prevFrame = Some (0, 4), dropped = 2,
        emitted = [\<lparr>Timecode = 0, Position = 0, SimpleBlock = [129, 0, 0, 128]\<rparr>,
                   \<lparr>Timecode = 16666666, Position = 0, SimpleBlock = [129, 0, 0, 128, 1, 2, 3, 4]\<rparr>,
                   \<lparr>Timecode = 33333332, Position = 0, SimpleBlock = [129, 0, 0, 128, 1, 2, 3, 4]\<rparr>]\<rparr>"
  have run: "pacer_run 60 [?t1, ?t2, ?t3] = Inr ?fin"
    by (simp add: pacer_run_def pacer_tick_def sendFrame_def frame_interval_def pacer_init_def
        go_int_def Let_def slice_bytes_def)
  have d: "frame_interval 60 = Inr 16666666" by (simp add: frame_interval_def)
  have bound: "int (length [?t1, ?t2, ?t3]) * 16666666 < 2 ^ 63" by simp
  from timecodes_strictly_increasing [OF run d bound]
  show ?thesis using run d bound by simp
qed

subsection \<open>The first tick\<close>

text \<open>
  Claim C8. The first tick with no page available and no frame ever produced does not
  wait and does not stay silent: the Pacer counts a drop and emits a cluster with
  timecode 0 whose block is the four header bytes and no pixel at all, whatever the
  segment holds.
\<close>

theorem first_tick_without_frame:
  "pacer_run 60 [\<lparr>tick_mem = mem, tick_avail = None, tick_sink_err = False\<rparr>] =
     Inr \<lparr>idx = 0, prevFrame = None, dropped = 1,
          emitted = [\<lparr>Timecode = 0, Position = 0, SimpleBlock = [129, 0, 0, 128]\<rparr>]\<rparr>"
  by (simp add: pacer_run_def pacer_tick_def sendFrame_def frame_interval_def pacer_init_def
      go_int_def Let_def)

section \<open>Properties of the handoff\<close>

subsection \<open>What an iteration stores, and where\<close>

















subsection \<open>Interleavings\<close>












subsection \<open>A page of \<open>2 ^ 32\<close> bytes\<close>


subsection \<open>Pages of fewer than \<open>2 ^ 32\<close> bytes\<close>



end
